theory Spec2Isabelle
  imports Main "HOL-Library.Char_ord" "HOL-Library.List_Lexorder" "HOL-Library.Multiset"
begin

section \<open>Strings, digits and integers of the Python source\<close>

text \<open>
  The development embeds \<^verbatim>\<open>json_to_csv_expanded_natsort.py\<close>. A Python string is a
  \<^typ>\<open>string\<close>; a \<^typ>\<open>char\<close> stands for the code point of the same number, so the
  strings covered are those of code points below 256 (Latin-1). Strings are compared
  as Python compares them, code point by code point, which is the lexicographic order
  of \<^typ>\<open>char list\<close>.
\<close>

datatype py_error =
    ValueError_directory   \<comment> \<open>\<^verbatim>\<open>ValueError("Directory ... does not exist")\<close>\<close>
  | ValueError_no_files    \<comment> \<open>\<^verbatim>\<open>ValueError("No JSON files found ...")\<close>\<close>
  | ValueError_no_valid    \<comment> \<open>\<^verbatim>\<open>ValueError("No valid JSON files could be processed")\<close>\<close>
  | ValueError_int         \<comment> \<open>\<^verbatim>\<open>int(text)\<close>: invalid literal for int() with base 10\<close>
  | TypeError_compare      \<comment> \<open>\<^verbatim>\<open><\<close> between a \<^verbatim>\<open>str\<close> and an \<^verbatim>\<open>int\<close>\<close>
  | OSError_output         \<comment> \<open>the output file or its directory cannot be created\<close>

text \<open>The regular expression class \<^verbatim>\<open>\d\<close>: below code point 256 it is \<^verbatim>\<open>0\<close> to \<^verbatim>\<open>9\<close>.\<close>

definition re_digit :: "char \<Rightarrow> bool" where
  "re_digit c \<longleftrightarrow> c \<in> set ''0123456789''"

text \<open>
  One character of \<^verbatim>\<open>str.isdigit\<close>: besides \<^verbatim>\<open>0\<close> to \<^verbatim>\<open>9\<close> it accepts the
  superscript digits U+00B2, U+00B3 and U+00B9, which \<^verbatim>\<open>\d\<close> does not match and
  \<^verbatim>\<open>int\<close> does not parse.
\<close>

definition isdigit_char :: "char \<Rightarrow> bool" where
  "isdigit_char c \<longleftrightarrow> re_digit c \<or> c \<in> {char_of (178::nat), char_of (179::nat), char_of (185::nat)}"

definition isdigit :: "string \<Rightarrow> bool" where
  "isdigit text \<longleftrightarrow> text \<noteq> [] \<and> list_all isdigit_char text"

definition digit_val :: "char \<Rightarrow> nat" where
  "digit_val c = of_char c - 48"

definition dec_val :: "string \<Rightarrow> nat" where
  "dec_val ds = foldl (\<lambda>n c. 10 * n + digit_val c) 0 ds"

text \<open>
  \<^verbatim>\<open>int(text)\<close> on the strings the program passes to it, which are non-empty and made
  of \<^verbatim>\<open>isdigit\<close> characters: a run of \<^verbatim>\<open>0\<close> to \<^verbatim>\<open>9\<close> is read in base ten, anything
  else is a \<^verbatim>\<open>ValueError\<close>.
\<close>

definition py_int :: "string \<Rightarrow> py_error + int" where
  "py_int text = (if text \<noteq> [] \<and> list_all re_digit text then Inr (int (dec_val text))
                  else Inl ValueError_int)"

text \<open>\<^verbatim>\<open>str.lower\<close>, one character: A to Z, and the Latin-1 capitals U+00C0 to U+00DE
  without the multiplication sign U+00D7.\<close>

definition lower_char :: "char \<Rightarrow> char" where
  "lower_char c = (let n = (of_char c :: nat) in
     if (65 \<le> n \<and> n \<le> 90) \<or> (192 \<le> n \<and> n \<le> 222 \<and> n \<noteq> 215) then char_of (n + 32) else c)"

definition lower :: "string \<Rightarrow> string" where
  "lower text = map lower_char text"

text \<open>The decimal text of a natural number, as an f-string prints \<^verbatim>\<open>orig_idx + 1\<close>.\<close>

definition digit_char :: "nat \<Rightarrow> char" where
  "digit_char d = char_of (48 + d)"

function str_nat :: "nat \<Rightarrow> string" where
  "str_nat n = (if n < 10 then [digit_char n] else str_nat (n div 10) @ [digit_char (n mod 10)])"
  by pat_completeness auto
termination
  by (relation "measure id") auto

declare str_nat.simps [simp del]

section \<open>The chunk index of a file name\<close>

text \<open>
  \<^verbatim>\<open>re.search(r'chunk_(\d+)', filename)\<close>: the leftmost position where the text
  \<^verbatim>\<open>chunk_\<close> is followed by a digit; group 1 is the longest run of digits there.
\<close>

fun strip_prefix :: "string \<Rightarrow> string \<Rightarrow> string option" where
  "strip_prefix [] s = Some s"
| "strip_prefix (p # ps) [] = None"
| "strip_prefix (p # ps) (c # cs) = (if p = c then strip_prefix ps cs else None)"

definition match_chunk_here :: "string \<Rightarrow> string option" where
  "match_chunk_here s = (case strip_prefix ''chunk_'' s of
       None \<Rightarrow> None
     | Some rest \<Rightarrow> (if takeWhile re_digit rest = [] then None else Some (takeWhile re_digit rest)))"

fun re_search_chunk :: "string \<Rightarrow> string option" where
  "re_search_chunk [] = None"
| "re_search_chunk (c # cs) = (case match_chunk_here (c # cs) of
       Some ds \<Rightarrow> Some ds
     | None \<Rightarrow> re_search_chunk cs)"

text \<open>\<^verbatim>\<open>re.findall(r'\d+', filename)\<close>: the maximal runs of digits, left to right.\<close>

function re_findall_digits :: "string \<Rightarrow> string list" where
  "re_findall_digits s = (let r = dropWhile (\<lambda>c. \<not> re_digit c) s in
     if r = [] then [] else takeWhile re_digit r # re_findall_digits (dropWhile re_digit r))"
  by pat_completeness auto
termination
proof (relation "measure length")
  fix s r :: string
  assume r: "r = dropWhile (\<lambda>c. \<not> re_digit c) s" and ne: "r \<noteq> []"
  have "re_digit (hd r)"
    using r ne hd_dropWhile [of "\<lambda>c. \<not> re_digit c" s] by auto
  then have "length (dropWhile re_digit r) < length r"
    using ne by (cases r) (auto simp: le_imp_less_Suc length_dropWhile_le)
  also have "length r \<le> length s"
    using r by (simp add: length_dropWhile_le)
  finally show "(dropWhile re_digit r, s) \<in> measure length" by simp
qed simp

declare re_findall_digits.simps [simp del]

definition extract_chunk_number :: "string \<Rightarrow> py_error + int" where
  "extract_chunk_number filename =
     (case re_search_chunk filename of
        Some ds \<Rightarrow> py_int ds
      | None \<Rightarrow> (let numbers = re_findall_digits filename in
                  if numbers \<noteq> [] then py_int (last numbers) else Inr 0))"

definition calculate_time_offset :: "int \<Rightarrow> int" where
  "calculate_time_offset chunk_number = max 0 (chunk_number - 1)"

section \<open>The natural sort key\<close>

text \<open>
  An element of a sort key is a piece of text or an integer. Python orders two keys as
  lists, element by element, and raises \<^verbatim>\<open>TypeError\<close> when the first differing
  elements are a piece of text and an integer (\<open>key_lt\<close> below). The linear order declared
  here agrees with Python wherever Python does not raise, and puts text before integers
  otherwise, so that the library's sorting functions apply.
\<close>

datatype tok = TStr string | TInt int

instantiation tok :: linorder
begin

fun less_eq_tok :: "tok \<Rightarrow> tok \<Rightarrow> bool" where
  "less_eq_tok (TStr a) (TStr b) \<longleftrightarrow> a \<le> b"
| "less_eq_tok (TInt m) (TInt n) \<longleftrightarrow> m \<le> n"
| "less_eq_tok (TStr a) (TInt n) \<longleftrightarrow> True"
| "less_eq_tok (TInt m) (TStr b) \<longleftrightarrow> False"

definition less_tok :: "tok \<Rightarrow> tok \<Rightarrow> bool" where
  "less_tok a b \<longleftrightarrow> a \<le> b \<and> \<not> b \<le> a"

instance
proof
  fix x y z :: tok
  show "x < y \<longleftrightarrow> x \<le> y \<and> \<not> y \<le> x" by (simp add: less_tok_def)
  show "x \<le> x" by (cases x) simp_all
  show "x \<le> y \<Longrightarrow> y \<le> z \<Longrightarrow> x \<le> z" by (cases x; cases y; cases z) auto
  show "x \<le> y \<Longrightarrow> y \<le> x \<Longrightarrow> x = y" by (cases x; cases y) auto
  show "x \<le> y \<or> y \<le> x" by (cases x; cases y) auto
qed

end

text \<open>
  \<^verbatim>\<open>re.split(r'(\d+)', s)\<close>: the text before the first run of digits, that run, the text
  up to the next run, and so on; the list starts and ends with a piece of text, which may
  be empty.
\<close>

function re_split_digits :: "string \<Rightarrow> string list" where
  "re_split_digits s = (let r = dropWhile (\<lambda>c. \<not> re_digit c) s in
     if r = [] then [takeWhile (\<lambda>c. \<not> re_digit c) s]
     else takeWhile (\<lambda>c. \<not> re_digit c) s # takeWhile re_digit r
            # re_split_digits (dropWhile re_digit r))"
  by pat_completeness auto
termination
proof (relation "measure length")
  fix s r :: string
  assume r: "r = dropWhile (\<lambda>c. \<not> re_digit c) s" and ne: "r \<noteq> []"
  have "re_digit (hd r)"
    using r ne hd_dropWhile [of "\<lambda>c. \<not> re_digit c" s] by auto
  then have "length (dropWhile re_digit r) < length r"
    using ne by (cases r) (auto simp: le_imp_less_Suc length_dropWhile_le)
  also have "length r \<le> length s"
    using r by (simp add: length_dropWhile_le)
  finally show "(dropWhile re_digit r, s) \<in> measure length" by simp
qed simp

declare re_split_digits.simps [simp del]

text \<open>A list comprehension whose elements may raise: the first error, in order, is raised.\<close>

fun sequence_sum :: "('e + 'a) list \<Rightarrow> 'e + 'a list" where
  "sequence_sum [] = Inr []"
| "sequence_sum (Inl e # rs) = Inl e"
| "sequence_sum (Inr x # rs) = (case sequence_sum rs of Inl e \<Rightarrow> Inl e | Inr xs \<Rightarrow> Inr (x # xs))"

definition natural_sort_key :: "string \<Rightarrow> py_error + tok list" where
  "natural_sort_key s = sequence_sum
     (map (\<lambda>text. if isdigit text then map_sum id TInt (py_int text) else Inr (TStr (lower text)))
          (re_split_digits s))"

text \<open>
  Modelled from the spec: \<^verbatim>\<open>natsorted\<close> belongs to the library natsort, which is not part of
  the source. The specification (4.2, 4.3) orders array elements by the Natural-Order
  Comparator: the string is split into maximal runs of digits and non-digits, a digit run
  becomes its integer value and a non-digit run its case-folded text. The library never
  raises on a string.
\<close>

definition natsort_key :: "string \<Rightarrow> tok list" where
  "natsort_key s =
     map (\<lambda>text. if text \<noteq> [] \<and> list_all re_digit text then TInt (int (dec_val text))
                  else TStr (lower text))
         (re_split_digits s)"

section \<open>Parsed JSON and Python's text for it\<close>

text \<open>
  What \<^verbatim>\<open>json.load\<close> returns. An object is the list of its entries in the order of the
  document; a Python \<^verbatim>\<open>dict\<close> has each key once. The program only carries a float
  and prints it, so a float is the text Python prints for it.
\<close>

datatype json =
    JNull
  | JBool bool
  | JInt int
  | JFloat string
  | JStr string
  | JArr "json list"
  | JObj "(string \<times> json) list"

text \<open>
  \<^verbatim>\<open>str(value)\<close>, the sort key's argument in \<^verbatim>\<open>flatten_json\<close>: a string is itself, any
  other value is its \<^verbatim>\<open>repr\<close>, with Python's quoting and escapes for the strings inside
  a list or dict.
\<close>

definition str_int :: "int \<Rightarrow> string" where
  "str_int n = (if n < 0 then CHR ''-'' # str_nat (nat (- n)) else str_nat (nat n))"

definition hex_char :: "nat \<Rightarrow> char" where
  "hex_char d = ''0123456789abcdef'' ! d"

definition repr_char :: "char \<Rightarrow> char \<Rightarrow> string" where
  "repr_char q c = (let n = (of_char c :: nat) in
     if c = q \<or> n = 92 then [char_of (92::nat), c]
     else if n = 9 then [char_of (92::nat), CHR ''t'']
     else if n = 10 then [char_of (92::nat), CHR ''n'']
     else if n = 13 then [char_of (92::nat), CHR ''r'']
     else if n < 32 \<or> n = 127 \<or> (128 \<le> n \<and> n \<le> 160) \<or> n = 173
       then [char_of (92::nat), CHR ''x'', hex_char (n div 16), hex_char (n mod 16)]
     else [c])"

definition repr_str :: "string \<Rightarrow> string" where
  "repr_str s = (let q = (if char_of (39::nat) \<in> set s \<and> char_of (34::nat) \<notin> set s
                          then char_of (34::nat) else char_of (39::nat))
                 in q # concat (map (repr_char q) s) @ [q])"

fun join :: "string \<Rightarrow> string list \<Rightarrow> string" where
  "join sep [] = []"
| "join sep [x] = x"
| "join sep (x # y # ys) = x @ sep @ join sep (y # ys)"

fun py_repr :: "json \<Rightarrow> string" where
  "py_repr JNull = ''None''"
| "py_repr (JBool b) = (if b then ''True'' else ''False'')"
| "py_repr (JInt n) = str_int n"
| "py_repr (JFloat r) = r"
| "py_repr (JStr s) = repr_str s"
| "py_repr (JArr vs) = ''['' @ join '', '' (map py_repr vs) @ '']''"
| "py_repr (JObj kvs) =
     ''{'' @ join '', '' (map (\<lambda>(k, v). repr_str k @ '': '' @ py_repr v) kvs) @ ''}''"

definition py_str :: "json \<Rightarrow> string" where
  "py_str v = (case v of JStr s \<Rightarrow> s | _ \<Rightarrow> py_repr v)"

text \<open>
  \<^verbatim>\<open>natsorted(enumerate(value), key=lambda x: str(x[1]))\<close>: a stable sort of the
  (index, element) pairs by the natural sort key of the element's text.
\<close>

definition natsorted_by_str :: "(nat \<times> json) list \<Rightarrow> (nat \<times> json) list" where
  "natsorted_by_str pairs = sort_key (\<lambda>x. natsort_key (py_str (snd x))) pairs"

section \<open>Flattening one document\<close>

text \<open>
  A \<^verbatim>\<open>dict\<close> keeps its keys in the order of their first insertion; assigning to a key
  that is present replaces the value in place.
\<close>

type_synonym py_dict = "(string \<times> json) list"

fun dict_set :: "py_dict \<Rightarrow> string \<Rightarrow> json \<Rightarrow> py_dict" where
  "dict_set [] k v = [(k, v)]"
| "dict_set ((k', v') # d) k v = (if k' = k then (k, v) # d else (k', v') # dict_set d k v)"

definition dict_update :: "py_dict \<Rightarrow> py_dict \<Rightarrow> py_dict" where
  "dict_update d other = foldl (\<lambda>d (k, v). dict_set d k v) d other"

definition dict_get :: "py_dict \<Rightarrow> string \<Rightarrow> json \<Rightarrow> json" where
  "dict_get d k dflt = (case map_of d k of None \<Rightarrow> dflt | Some v \<Rightarrow> v)"

text \<open>\<^verbatim>\<open>isinstance(item, (dict, list))\<close>\<close>

fun is_container :: "json \<Rightarrow> bool" where
  "is_container (JArr vs) = True"
| "is_container (JObj kvs) = True"
| "is_container v = False"

function (sequential) flatten_json :: "json \<Rightarrow> string \<Rightarrow> string \<Rightarrow> py_dict" where
  "flatten_json (JObj kvs) parent_key sep =
     foldl (\<lambda>items (key, value).
        let new_key = (if parent_key \<noteq> [] then parent_key @ sep @ key else key) in
        case value of
          JObj kvs' \<Rightarrow> dict_update items (flatten_json value new_key sep)
        | JArr vs \<Rightarrow>
            foldl (\<lambda>items (orig_idx, item).
               let list_key = new_key @ ''_'' @ str_nat (orig_idx + 1) in
               if is_container item then dict_update items (flatten_json item list_key sep)
               else dict_set items list_key item)
              items (natsorted_by_str (enumerate 0 vs))
        | _ \<Rightarrow> dict_set items new_key value)
       [] kvs"
| "flatten_json (JArr vs) parent_key sep =
     foldl (\<lambda>items (orig_idx, item).
        let list_key = (if parent_key \<noteq> [] then parent_key @ ''_'' @ str_nat (orig_idx + 1)
                        else ''item_'' @ str_nat (orig_idx + 1)) in
        if is_container item then dict_update items (flatten_json item list_key sep)
        else dict_set items list_key item)
       [] (natsorted_by_str (enumerate 0 vs))"
| "flatten_json data parent_key sep = [(parent_key, data)]"
  by pat_completeness auto
termination
proof (relation "measure (\<lambda>(d, p, s). size d)")
  have elem: "size v < Suc (size_list size vs)" if "v \<in> set vs" for v :: json and vs
    using that by (induction vs) auto
  have entry: "size v < Suc (size_list (size_prod (\<lambda>x. 0) size) kvs)"
    if "(k, v) \<in> set kvs" for k :: string and v :: json and kvs
    using that by (induction kvs) auto
  have sorted_elem: "v \<in> set vs" if "(i, v) \<in> set (natsorted_by_str (enumerate 0 vs))"
    for i and v :: json and vs
    using that by (auto simp: natsorted_by_str_def in_set_enumerate_eq)
  show "wf (measure (\<lambda>(d, p, s). size d))" by simp
  show "((value, new_key, sep), (JObj kvs, parent_key, sep)) \<in> measure (\<lambda>(d, p, s). size d)"
    if "x \<in> set kvs" "(key, value) = x" "value = JObj kvs'"
    for kvs and parent_key sep new_key :: string and x key "value" kvs'
    using that entry [of key "value" kvs] by auto
  show "((item, list_key, sep), (JObj kvs, parent_key, sep)) \<in> measure (\<lambda>(d, p, s). size d)"
    if "x \<in> set kvs" "(key, value) = x" "value = JArr vs"
      "xi \<in> set (natsorted_by_str (enumerate 0 vs))" "(orig_idx, item) = xi"
    for kvs and parent_key sep list_key :: string and x key "value" vs xi orig_idx item
  proof -
    have "size item < Suc (size_list size vs)"
      using that sorted_elem [of orig_idx item vs] elem by auto
    moreover have "size (JArr vs) < Suc (size_list (size_prod (\<lambda>x. 0) size) kvs)"
      using that entry [of key "JArr vs" kvs] by auto
    ultimately show ?thesis by simp
  qed
  show "((item, list_key, sep), (JArr vs, parent_key, sep)) \<in> measure (\<lambda>(d, p, s). size d)"
    if "xi \<in> set (natsorted_by_str (enumerate 0 vs))" "(orig_idx, item) = xi"
    for vs and parent_key sep list_key :: string and xi orig_idx item
    using that sorted_elem [of orig_idx item vs] elem [of item vs] by auto
qed

declare flatten_json.simps [simp del]

section \<open>Sorting as Python sorts\<close>

text \<open>
  \<^verbatim>\<open><\<close> on two elements of a key, and on two keys. Python compares two lists at the
  first position where their elements are not equal (a text and an integer are never
  equal), or by length when one list is a prefix of the other.
\<close>

fun tok_lt :: "tok \<Rightarrow> tok \<Rightarrow> py_error + bool" where
  "tok_lt (TStr a) (TStr b) = Inr (a < b)"
| "tok_lt (TInt m) (TInt n) = Inr (m < n)"
| "tok_lt (TStr a) (TInt n) = Inl TypeError_compare"
| "tok_lt (TInt m) (TStr b) = Inl TypeError_compare"

fun key_lt :: "tok list \<Rightarrow> tok list \<Rightarrow> py_error + bool" where
  "key_lt [] [] = Inr False"
| "key_lt [] (y # ys) = Inr True"
| "key_lt (x # xs) [] = Inr False"
| "key_lt (x # xs) (y # ys) = (if x = y then key_lt xs ys else tok_lt x y)"

text \<open>
  \<^verbatim>\<open>list.sort(key=...)\<close> computes every key first, then sorts stably and compares keys
  with \<^verbatim>\<open><\<close> only. The model inserts each element in turn, which is what Python's
  sort does on a short list; where no comparison raises, every stable sort returns the
  same list.
\<close>

fun insort_lt :: "tok list \<times> 'a \<Rightarrow> (tok list \<times> 'a) list \<Rightarrow> py_error + (tok list \<times> 'a) list" where
  "insort_lt x [] = Inr [x]"
| "insort_lt x (y # ys) =
     (case key_lt (fst y) (fst x) of
        Inl e \<Rightarrow> Inl e
      | Inr b \<Rightarrow> (if b then (case insort_lt x ys of Inl e \<Rightarrow> Inl e | Inr zs \<Rightarrow> Inr (y # zs))
                  else Inr (x # y # ys)))"

fun sort_lt :: "(tok list \<times> 'a) list \<Rightarrow> py_error + (tok list \<times> 'a) list" where
  "sort_lt [] = Inr []"
| "sort_lt (x # xs) = (case sort_lt xs of Inl e \<Rightarrow> Inl e | Inr ys \<Rightarrow> insort_lt x ys)"

definition py_sort_key :: "('a \<Rightarrow> py_error + tok list) \<Rightarrow> 'a list \<Rightarrow> py_error + 'a list" where
  "py_sort_key key xs =
     (case sequence_sum (map key xs) of
        Inl e \<Rightarrow> Inl e
      | Inr ks \<Rightarrow> (case sort_lt (zip ks xs) of Inl e \<Rightarrow> Inl e | Inr ps \<Rightarrow> Inr (map snd ps)))"

section \<open>The conversion job\<close>

text \<open>
  Python does not fix the order in which a \<^verbatim>\<open>set\<close> is iterated: it depends on the
  hashes of the elements and on the history of the set. A set is modelled as the list of
  its elements in the order of their insertion, and \<^verbatim>\<open>list(all_fieldnames)\<close> as a
  function \<open>list_of_set\<close> of that list, a parameter of the job.
\<close>

type_synonym py_set = "string list"

definition set_add :: "py_set \<Rightarrow> string \<Rightarrow> py_set" where
  "set_add s x = (if x \<in> set s then s else s @ [x])"

definition set_update :: "py_set \<Rightarrow> string list \<Rightarrow> py_set" where
  "set_update s xs = foldl set_add s xs"

definition set_discard :: "py_set \<Rightarrow> string \<Rightarrow> py_set" where
  "set_discard s x = filter (\<lambda>y. y \<noteq> x) s"

text \<open>
  What the job reads from its environment: whether the input path exists and is a
  directory; the files of \<^verbatim>\<open>dir_path.glob("*.json")\<close> in the order of the file system,
  each with the value \<^verbatim>\<open>json.load\<close> returns, or \<open>None\<close> where opening, decoding or
  parsing raises \<^verbatim>\<open>JSONDecodeError\<close>, \<^verbatim>\<open>IOError\<close> or \<^verbatim>\<open>UnicodeDecodeError\<close>; and whether the
  output directory and file can be created. The table written is the header and one list
  of cells per row, each cell the value handed to the CSV writer.
\<close>

record job_input =
  dir_exists :: bool
  dir_is_dir :: bool
  glob_json :: "(string \<times> json option) list"
  output_writable :: bool

record csv_table =
  header :: "string list"
  rows :: "json list list"

text \<open>\<^verbatim>\<open>json_files.sort(key=lambda x: extract_chunk_number(x.name))\<close>\<close>

definition sort_by_chunk :: "(string \<times> 'a) list \<Rightarrow> py_error + (string \<times> 'a) list" where
  "sort_by_chunk files =
     (case sequence_sum (map (\<lambda>x. extract_chunk_number (fst x)) files) of
        Inl e \<Rightarrow> Inl e
      | Inr ns \<Rightarrow> Inr (map snd (sort_key fst (zip ns files))))"

text \<open>The first loop: a file that cannot be read is skipped, the others are flattened.\<close>

fun first_pass :: "(string \<times> json option) list \<Rightarrow> py_set \<times> py_dict list
                    \<Rightarrow> py_error + py_set \<times> py_dict list" where
  "first_pass [] acc = Inr acc"
| "first_pass ((name, content) # json_files) (all_fieldnames, flattened_data_list) =
     (case content of
        None \<Rightarrow> first_pass json_files (all_fieldnames, flattened_data_list)
      | Some data \<Rightarrow>
          (case extract_chunk_number name of
             Inl e \<Rightarrow> Inl e
           | Inr chunk_number \<Rightarrow>
               (let time_offset = calculate_time_offset chunk_number;
                    flattened_data =
                      dict_set (flatten_json data [] ''_'') ''5_sec_time_offset'' (JInt time_offset)
                in first_pass json_files
                     (set_update all_fieldnames (map fst flattened_data),
                      flattened_data_list @ [flattened_data]))))"

text \<open>Lines 125 to 133: the reserved column, then the other names sorted by \<^verbatim>\<open>natural_sort_key\<close>.\<close>

definition schema :: "(py_set \<Rightarrow> string list) \<Rightarrow> py_set \<Rightarrow> py_error + string list" where
  "schema list_of_set all_fieldnames =
     (case py_sort_key natural_sort_key (list_of_set (set_discard all_fieldnames ''5_sec_time_offset'')) of
        Inl e \<Rightarrow> Inl e
      | Inr fieldnames_list \<Rightarrow> Inr (''5_sec_time_offset'' # fieldnames_list))"

definition json_directory_to_csv :: "(py_set \<Rightarrow> string list) \<Rightarrow> job_input \<Rightarrow> py_error + csv_table" where
  "json_directory_to_csv list_of_set inp =
     (if \<not> dir_exists inp \<or> \<not> dir_is_dir inp then Inl ValueError_directory
      else if glob_json inp = [] then Inl ValueError_no_files
      else (case sort_by_chunk (glob_json inp) of
        Inl e \<Rightarrow> Inl e
      | Inr json_files \<Rightarrow>
         (case first_pass json_files ([], []) of
            Inl e \<Rightarrow> Inl e
          | Inr (all_fieldnames, flattened_data_list) \<Rightarrow>
              (if flattened_data_list = [] then Inl ValueError_no_valid
               else (case schema list_of_set all_fieldnames of
                  Inl e \<Rightarrow> Inl e
                | Inr fieldnames \<Rightarrow>
                    (if \<not> output_writable inp then Inl OSError_output
                     else Inr \<lparr>header = fieldnames,
                               rows = map (\<lambda>flattened_data.
                                         map (\<lambda>field. dict_get flattened_data field (JStr [])) fieldnames)
                                       flattened_data_list\<rparr>))))))"

section \<open>Notions used to state the properties\<close>

text \<open>The text \<^verbatim>\<open>chunk_\<close> stands at position \<open>i\<close> of \<open>f\<close> and a digit follows it.\<close>

definition chunk_marker_at :: "nat \<Rightarrow> string \<Rightarrow> bool" where
  "chunk_marker_at i f \<longleftrightarrow>
     take 6 (drop i f) = ''chunk_'' \<and> i + 6 < length f \<and> re_digit (f ! (i + 6))"

text \<open>
  The bodies of the loops of \<^verbatim>\<open>flatten_json\<close>, named: one (index, element) pair of a list
  written under the prefix \<open>prefix\<close>, a whole list, and one entry of a dict.
\<close>

definition expand_item :: "string \<Rightarrow> string \<Rightarrow> py_dict \<Rightarrow> nat \<times> json \<Rightarrow> py_dict" where
  "expand_item prefix sep items x =
     (if is_container (snd x)
      then dict_update items (flatten_json (snd x) (prefix @ ''_'' @ str_nat (fst x + 1)) sep)
      else dict_set items (prefix @ ''_'' @ str_nat (fst x + 1)) (snd x))"

definition expand_list :: "string \<Rightarrow> string \<Rightarrow> py_dict \<Rightarrow> (nat \<times> json) list \<Rightarrow> py_dict" where
  "expand_list prefix sep items pairs = foldl (expand_item prefix sep) items pairs"

definition flatten_entry :: "string \<Rightarrow> string \<Rightarrow> py_dict \<Rightarrow> string \<times> json \<Rightarrow> py_dict" where
  "flatten_entry parent_key sep items x =
     (case snd x of
        JObj kvs' \<Rightarrow>
          dict_update items
            (flatten_json (snd x) (if parent_key \<noteq> [] then parent_key @ sep @ fst x else fst x) sep)
      | JArr vs \<Rightarrow>
          expand_list (if parent_key \<noteq> [] then parent_key @ sep @ fst x else fst x) sep items
            (natsorted_by_str (enumerate 0 vs))
      | _ \<Rightarrow> dict_set items (if parent_key \<noteq> [] then parent_key @ sep @ fst x else fst x) (snd x))"

text \<open>Every value of a record is a scalar: a string, a number, a boolean or null.\<close>

definition scalar_values :: "py_dict \<Rightarrow> bool" where
  "scalar_values d \<longleftrightarrow> (\<forall>(k, v)\<in>set d. \<not> is_container v)"

text \<open>
  Every character that \<^verbatim>\<open>str.isdigit\<close> accepts is one of \<^verbatim>\<open>0\<close> to \<^verbatim>\<open>9\<close>; the shape of
  the list \<^verbatim>\<open>re.split\<close> returns and of a sort key (text, integer, text, and so on, ending
  with text, the text free of digits and in lower case); and two keys that have the same
  kind of element at every position they share.
\<close>

definition ascii_digits_only :: "string \<Rightarrow> bool" where
  "ascii_digits_only s \<longleftrightarrow> (\<forall>c\<in>set s. isdigit_char c \<longrightarrow> re_digit c)"

fun split_shape :: "string list \<Rightarrow> bool" where
  "split_shape [a] \<longleftrightarrow> (\<forall>c\<in>set a. \<not> re_digit c)"
| "split_shape (a # d # rest) \<longleftrightarrow>
     (\<forall>c\<in>set a. \<not> re_digit c) \<and> d \<noteq> [] \<and> list_all re_digit d \<and> split_shape rest"
| "split_shape [] \<longleftrightarrow> False"

fun key_shape :: "tok list \<Rightarrow> bool" where
  "key_shape [TStr u] \<longleftrightarrow> (\<forall>c\<in>set u. \<not> re_digit c) \<and> lower u = u"
| "key_shape (TStr u # TInt n # rest) \<longleftrightarrow>
     (\<forall>c\<in>set u. \<not> re_digit c) \<and> lower u = u \<and> key_shape rest"
| "key_shape k \<longleftrightarrow> False"

fun same_kinds :: "tok list \<Rightarrow> tok list \<Rightarrow> bool" where
  "same_kinds (TStr u # a) (TStr v # b) \<longleftrightarrow> same_kinds a b"
| "same_kinds (TInt m # a) (TInt n # b) \<longleftrightarrow> same_kinds a b"
| "same_kinds [] b \<longleftrightarrow> True"
| "same_kinds a [] \<longleftrightarrow> True"
| "same_kinds a b \<longleftrightarrow> False"

text \<open>
  One piece of a split string as an element of the key, and the pieces on which
  \<^verbatim>\<open>int\<close> raises: those \<^verbatim>\<open>str.isdigit\<close> accepts that are not runs of \<^verbatim>\<open>0\<close> to \<^verbatim>\<open>9\<close>.
\<close>

definition key_piece :: "string \<Rightarrow> tok" where
  "key_piece text = (if text \<noteq> [] \<and> list_all re_digit text then TInt (int (dec_val text))
                     else TStr (lower text))"

definition bad_piece :: "string \<Rightarrow> bool" where
  "bad_piece text \<longleftrightarrow> isdigit text \<and> \<not> list_all re_digit text"

text \<open>
  The chunk index as a number (the extraction never raises); the files of a listing that
  could be read, in the order of the listing; the record the first loop appends for one
  of them; what is asked of the iteration order of a set, that it lists the elements of the
  set, each once; the column names of a list of records other than the reserved one; and
  the set of names the first loop accumulates.
\<close>

definition chunk_index :: "string \<Rightarrow> int" where
  "chunk_index name = (case extract_chunk_number name of Inr n \<Rightarrow> n | Inl e \<Rightarrow> 0)"

fun parsed_files :: "(string \<times> json option) list \<Rightarrow> (string \<times> json) list" where
  "parsed_files [] = []"
| "parsed_files ((name, None) # files) = parsed_files files"
| "parsed_files ((name, Some data) # files) = (name, data) # parsed_files files"

definition flattened_record :: "string \<times> json \<Rightarrow> py_dict" where
  "flattened_record f =
     dict_set (flatten_json (snd f) [] ''_'') ''5_sec_time_offset''
       (JInt (calculate_time_offset (chunk_index (fst f))))"

definition iteration_order :: "(py_set \<Rightarrow> string list) \<Rightarrow> bool" where
  "iteration_order list_of_set \<longleftrightarrow> (\<forall>s. mset (list_of_set s) = mset s)"

definition columns :: "py_dict list \<Rightarrow> string set" where
  "columns records = (\<Union>d\<in>set records. fst ` set d) - {''5_sec_time_offset''}"

definition fieldnames_of :: "py_set \<Rightarrow> py_dict list \<Rightarrow> py_set" where
  "fieldnames_of s records = foldl (\<lambda>s d. set_update s (map fst d)) s records"

text \<open>
  The column names on which \<^verbatim>\<open>natural_sort_key\<close> does not raise; the table written for a
  header and a list of records; and the records of a job, in the order of the rows.
\<close>

definition sortable_columns :: "py_dict list \<Rightarrow> bool" where
  "sortable_columns records \<longleftrightarrow>
     (\<forall>x\<in>columns records. natural_sort_key x \<noteq> Inl ValueError_int)"

definition table_of :: "string list \<Rightarrow> py_dict list \<Rightarrow> csv_table" where
  "table_of fieldnames records =
     \<lparr>header = fieldnames,
      rows = map (\<lambda>flattened_data. map (\<lambda>field. dict_get flattened_data field (JStr [])) fieldnames)
               records\<rparr>"

definition job_records :: "job_input \<Rightarrow> py_dict list" where
  "job_records inp =
     map flattened_record (parsed_files (sort_key (\<lambda>x. chunk_index (fst x)) (glob_json inp)))"

text \<open>
  A valid input of the job: the directory exists, at least one file can be read, no column
  name makes the sort key raise, and the output can be written.
\<close>

definition valid_input :: "(py_set \<Rightarrow> string list) \<Rightarrow> job_input \<Rightarrow> bool" where
  "valid_input list_of_set inp \<longleftrightarrow>
     iteration_order list_of_set \<and> dir_exists inp \<and> dir_is_dir inp \<and>
     parsed_files (glob_json inp) \<noteq> [] \<and> sortable_columns (job_records inp) \<and>
     output_writable inp"

text \<open>
  The variant of \<^verbatim>\<open>flatten_json\<close> that goes through the elements of a list in their
  order in the document: \<^verbatim>\<open>enumerate(value)\<close> in place of
  \<^verbatim>\<open>natsorted(enumerate(value), key=...)\<close>, and nothing else changed.
\<close>

function (sequential) flatten_json_positional :: "json \<Rightarrow> string \<Rightarrow> string \<Rightarrow> py_dict" where
  "flatten_json_positional (JObj kvs) parent_key sep =
     foldl (\<lambda>items (key, value).
        let new_key = (if parent_key \<noteq> [] then parent_key @ sep @ key else key) in
        case value of
          JObj kvs' \<Rightarrow> dict_update items (flatten_json_positional value new_key sep)
        | JArr vs \<Rightarrow>
            foldl (\<lambda>items (orig_idx, item).
               let list_key = new_key @ ''_'' @ str_nat (orig_idx + 1) in
               if is_container item
               then dict_update items (flatten_json_positional item list_key sep)
               else dict_set items list_key item)
              items (enumerate 0 vs)
        | _ \<Rightarrow> dict_set items new_key value)
       [] kvs"
| "flatten_json_positional (JArr vs) parent_key sep =
     foldl (\<lambda>items (orig_idx, item).
        let list_key = (if parent_key \<noteq> [] then parent_key @ ''_'' @ str_nat (orig_idx + 1)
                        else ''item_'' @ str_nat (orig_idx + 1)) in
        if is_container item then dict_update items (flatten_json_positional item list_key sep)
        else dict_set items list_key item)
       [] (enumerate 0 vs)"
| "flatten_json_positional data parent_key sep = [(parent_key, data)]"
  by pat_completeness auto
termination
proof (relation "measure (\<lambda>(d, p, s). size d)")
  have elem: "size v < Suc (size_list size vs)" if "v \<in> set vs" for v :: json and vs
    using that by (induction vs) auto
  have entry: "size v < Suc (size_list (size_prod (\<lambda>x. 0) size) kvs)"
    if "(k, v) \<in> set kvs" for k :: string and v :: json and kvs
    using that by (induction kvs) auto
  have enum_elem: "v \<in> set vs" if "(i, v) \<in> set (enumerate 0 vs)" for i and v :: json and vs
    using that by (auto simp: in_set_enumerate_eq)
  show "wf (measure (\<lambda>(d, p, s). size d))" by simp
  show "((value, new_key, sep), (JObj kvs, parent_key, sep)) \<in> measure (\<lambda>(d, p, s). size d)"
    if "x \<in> set kvs" "(key, value) = x" "value = JObj kvs'"
    for kvs and parent_key sep new_key :: string and x key "value" kvs'
    using that entry [of key "value" kvs] by auto
  show "((item, list_key, sep), (JObj kvs, parent_key, sep)) \<in> measure (\<lambda>(d, p, s). size d)"
    if "x \<in> set kvs" "(key, value) = x" "value = JArr vs"
      "xi \<in> set (enumerate 0 vs)" "(orig_idx, item) = xi"
    for kvs and parent_key sep list_key :: string and x key "value" vs xi orig_idx item
  proof -
    have "size item < Suc (size_list size vs)"
      using that enum_elem [of orig_idx item vs] elem by auto
    moreover have "size (JArr vs) < Suc (size_list (size_prod (\<lambda>x. 0) size) kvs)"
      using that entry [of key "JArr vs" kvs] by auto
    ultimately show ?thesis by simp
  qed
  show "((item, list_key, sep), (JArr vs, parent_key, sep)) \<in> measure (\<lambda>(d, p, s). size d)"
    if "xi \<in> set (enumerate 0 vs)" "(orig_idx, item) = xi"
    for vs and parent_key sep list_key :: string and xi orig_idx item
    using that enum_elem [of orig_idx item vs] elem [of item vs] by auto
qed

declare flatten_json_positional.simps [simp del]

text \<open>
  The joined column names of a document, one for each path to a scalar, in the order of
  the document and with repetitions.
\<close>

function (sequential) leaf_keys :: "json \<Rightarrow> string \<Rightarrow> string \<Rightarrow> string list" where
  "leaf_keys (JObj kvs) parent_key sep =
     concat (map (\<lambda>(key, value).
        let new_key = (if parent_key \<noteq> [] then parent_key @ sep @ key else key) in
        case value of
          JArr vs \<Rightarrow>
            concat (map (\<lambda>(orig_idx, item).
                      leaf_keys item (new_key @ ''_'' @ str_nat (orig_idx + 1)) sep)
                    (enumerate 0 vs))
        | _ \<Rightarrow> leaf_keys value new_key sep)
       kvs)"
| "leaf_keys (JArr vs) parent_key sep =
     concat (map (\<lambda>(orig_idx, item).
               leaf_keys item
                 ((if parent_key \<noteq> [] then parent_key else ''item'') @ ''_'' @ str_nat (orig_idx + 1))
                 sep)
             (enumerate 0 vs))"
| "leaf_keys data parent_key sep = [parent_key]"
  by pat_completeness auto
termination
proof -
  have elem: "size v < Suc (size_list size vs)" if "v \<in> set vs" for v :: json and vs
    using that by (induction vs) auto
  have entry: "size v < Suc (size_list (size_prod (\<lambda>x. 0) size) kvs)"
    if "(k, v) \<in> set kvs" for k :: string and v :: json and kvs
    using that by (induction kvs) auto
  have f3: "size y < Suc (size_list size vs)" if "(i, y) \<in> set (enumerate 0 vs)"
    for i and y :: json and vs
    using that elem [of y vs] by (auto simp: in_set_enumerate_eq)
  have f2: "size_list (size_prod (\<lambda>x. 0) size) kvs' < size_list (size_prod (\<lambda>x. 0) size) kvs"
    if "(k, JObj kvs') \<in> set kvs" for k :: string and kvs' kvs
    using entry [OF that] by simp
  have f1: "size y < Suc (size_list (size_prod (\<lambda>x. 0) size) kvs)"
    if "(k, JArr vs) \<in> set kvs" "(i, y) \<in> set (enumerate 0 vs)"
    for k :: string and vs kvs i and y :: json
    using entry [OF that(1)] f3 [OF that(2)] by simp
  show ?thesis
    by (relation "measure (\<lambda>(d, p, s). size d)") (auto intro: f1 f2 f3)
qed

declare leaf_keys.simps [simp del]

section \<open>The loops of the flattener\<close>

lemma flatten_json_JObj:
  "flatten_json (JObj kvs) parent_key sep = foldl (flatten_entry parent_key sep) [] kvs"
proof -
  have "(\<lambda>items (key, value).
        let new_key = (if parent_key \<noteq> [] then parent_key @ sep @ key else key) in
        case value of
          JObj kvs' \<Rightarrow> dict_update items (flatten_json value new_key sep)
        | JArr vs \<Rightarrow>
            foldl (\<lambda>items (orig_idx, item).
               let list_key = new_key @ ''_'' @ str_nat (orig_idx + 1) in
               if is_container item then dict_update items (flatten_json item list_key sep)
               else dict_set items list_key item)
              items (natsorted_by_str (enumerate 0 vs))
        | _ \<Rightarrow> dict_set items new_key value) = flatten_entry parent_key sep"
  proof (intro ext)
    fix items :: py_dict and x :: "string \<times> json"
    have e: "expand_item p sep = (\<lambda>items (orig_idx, item).
               let list_key = p @ ''_'' @ str_nat (orig_idx + 1) in
               if is_container item then dict_update items (flatten_json item list_key sep)
               else dict_set items list_key item)" for p
      by (intro ext) (simp add: expand_item_def split_def Let_def)
    show "(case x of (key, value) \<Rightarrow>
        (let new_key = (if parent_key \<noteq> [] then parent_key @ sep @ key else key) in
        (case value of
          JObj kvs' \<Rightarrow> dict_update items (flatten_json value new_key sep)
        | JArr vs \<Rightarrow>
            foldl (\<lambda>items (orig_idx, item).
               let list_key = new_key @ ''_'' @ str_nat (orig_idx + 1) in
               if is_container item then dict_update items (flatten_json item list_key sep)
               else dict_set items list_key item)
              items (natsorted_by_str (enumerate 0 vs))
        | _ \<Rightarrow> dict_set items new_key value))) = flatten_entry parent_key sep items x"
      unfolding flatten_entry_def expand_list_def split_def Let_def e
      by (cases "snd x") simp_all
  qed
  then show ?thesis by (simp only: flatten_json.simps)
qed

lemma flatten_json_JArr:
  "flatten_json (JArr vs) parent_key sep =
     expand_list (if parent_key \<noteq> [] then parent_key else ''item'') sep []
       (natsorted_by_str (enumerate 0 vs))"
proof -
  have "(\<lambda>items (orig_idx, item).
        let list_key = (if parent_key \<noteq> [] then parent_key @ ''_'' @ str_nat (orig_idx + 1)
                        else ''item_'' @ str_nat (orig_idx + 1)) in
        if is_container item then dict_update items (flatten_json item list_key sep)
        else dict_set items list_key item)
     = expand_item (if parent_key \<noteq> [] then parent_key else ''item'') sep"
    by (intro ext) (simp add: expand_item_def split_def Let_def)
  then show ?thesis by (simp only: flatten_json.simps expand_list_def)
qed

section \<open>Properties of the chunk index\<close>

lemma strip_prefix_eq:
  "strip_prefix p s = (if take (length p) s = p then Some (drop (length p) s) else None)"
  by (induction p s rule: strip_prefix.induct) auto

lemma takeWhile_eq_Nil_iff_hd: "takeWhile P xs = [] \<longleftrightarrow> xs = [] \<or> \<not> P (hd xs)"
  by (cases xs) auto

lemma match_chunk_here_eq:
  "match_chunk_here s =
     (if chunk_marker_at 0 s then Some (takeWhile re_digit (drop 6 s)) else None)"
proof -
  have len: "length ''chunk_'' = 6" by simp
  have sp: "strip_prefix ''chunk_'' s = (if take 6 s = ''chunk_'' then Some (drop 6 s) else None)"
    using strip_prefix_eq [of "''chunk_''" s] unfolding len .
  have hd: "hd (drop 6 s) = s ! 6" if "6 < length s"
    using that by (rule hd_drop_conv_nth)
  have nil: "drop 6 s = [] \<longleftrightarrow> \<not> 6 < length s"
    by auto
  show ?thesis
    unfolding match_chunk_here_def sp chunk_marker_at_def takeWhile_eq_Nil_iff_hd
    using hd nil by (simp del: drop_eq_Nil drop_eq_Nil2)
qed

lemma chunk_marker_at_Suc: "chunk_marker_at (Suc i) (c # cs) = chunk_marker_at i cs"
  by (simp add: chunk_marker_at_def ac_simps)

lemma chunk_marker_at_length: "chunk_marker_at i f \<Longrightarrow> i < length f"
  by (simp add: chunk_marker_at_def)

lemma re_search_chunk_first:
  "chunk_marker_at i f \<Longrightarrow> (\<forall>j<i. \<not> chunk_marker_at j f) \<Longrightarrow>
   re_search_chunk f = Some (takeWhile re_digit (drop (i + 6) f))"
proof (induction f arbitrary: i)
  case Nil
  then show ?case by (simp add: chunk_marker_at_def)
next
  case (Cons c cs)
  show ?case
  proof (cases i)
    case 0
    with Cons.prems show ?thesis by (simp add: match_chunk_here_eq)
  next
    case (Suc i')
    with Cons.prems have no0: "\<not> chunk_marker_at 0 (c # cs)" by blast
    have m: "chunk_marker_at i' cs"
      using Cons.prems(1) Suc by (simp add: chunk_marker_at_Suc)
    have "\<forall>j<i'. \<not> chunk_marker_at j cs"
      using Cons.prems(2) Suc chunk_marker_at_Suc by (metis Suc_less_eq)
    with m have "re_search_chunk cs = Some (takeWhile re_digit (drop (i' + 6) cs))"
      by (rule Cons.IH)
    moreover have "drop (i + 6) (c # cs) = drop (i' + 6) cs"
    proof -
      have "i + 6 = Suc (i' + 6)" using Suc by simp
      then show ?thesis by (simp only: drop_Suc_Cons)
    qed
    ultimately show ?thesis using no0 by (simp add: match_chunk_here_eq del: drop_Suc_Cons)
  qed
qed

lemma re_search_chunk_none:
  "(\<forall>j<length f. \<not> chunk_marker_at j f) \<Longrightarrow> re_search_chunk f = None"
proof (induction f)
  case Nil
  then show ?case by simp
next
  case (Cons c cs)
  have "\<forall>j<length cs. \<not> chunk_marker_at j cs"
    using Cons.prems chunk_marker_at_Suc by (metis Suc_less_eq length_Cons)
  then have "re_search_chunk cs = None" by (rule Cons.IH)
  moreover have "\<not> chunk_marker_at 0 (c # cs)" using Cons.prems by simp
  ultimately show ?case by (simp add: match_chunk_here_eq)
qed

lemma re_search_chunk_digits:
  "re_search_chunk f = Some ds \<Longrightarrow> ds \<noteq> [] \<and> list_all re_digit ds"
proof (induction f)
  case Nil
  then show ?case by simp
next
  case (Cons c cs)
  then show ?case
    by (auto simp: match_chunk_here_def list_all_iff split: option.splits if_splits
        dest: set_takeWhileD)
qed

lemma re_findall_digits_digits:
  "ds \<in> set (re_findall_digits f) \<Longrightarrow> ds \<noteq> [] \<and> list_all re_digit ds"
proof (induction f rule: re_findall_digits.induct)
  case (1 s)
  let ?r = "dropWhile (\<lambda>c. \<not> re_digit c) s"
  show ?case
  proof (cases "?r = []")
    case True
    with "1.prems" show ?thesis by (simp add: re_findall_digits.simps [of s])
  next
    case False
    then have hd: "re_digit (hd ?r)"
      using hd_dropWhile [of "\<lambda>c. \<not> re_digit c" s] by auto
    have "re_findall_digits s = takeWhile re_digit ?r # re_findall_digits (dropWhile re_digit ?r)"
      using False by (subst re_findall_digits.simps) (simp add: Let_def del: dropWhile_eq_Nil_conv)
    with "1.prems" have
      "ds = takeWhile re_digit ?r \<or> ds \<in> set (re_findall_digits (dropWhile re_digit ?r))"
      by simp
    then show ?thesis
    proof
      assume "ds = takeWhile re_digit ?r"
      with False hd show ?thesis
        by (auto simp: takeWhile_eq_Nil_iff_hd list_all_iff dest: set_takeWhileD)
    next
      assume "ds \<in> set (re_findall_digits (dropWhile re_digit ?r))"
      with "1.IH" [OF refl False] show ?thesis by simp
    qed
  qed
qed

lemma py_int_digits: "ds \<noteq> [] \<Longrightarrow> list_all re_digit ds \<Longrightarrow> py_int ds = Inr (int (dec_val ds))"
  by (simp add: py_int_def)

lemma extract_chunk_number_total: "\<exists>n\<ge>0. extract_chunk_number f = Inr n"
proof (cases "re_search_chunk f")
  case None
  show ?thesis
  proof (cases "re_findall_digits f = []")
    case True
    with None show ?thesis by (simp add: extract_chunk_number_def)
  next
    case False
    then have "last (re_findall_digits f) \<in> set (re_findall_digits f)" by simp
    then have "py_int (last (re_findall_digits f)) = Inr (int (dec_val (last (re_findall_digits f))))"
      using re_findall_digits_digits py_int_digits by blast
    with None False show ?thesis by (simp add: extract_chunk_number_def)
  qed
next
  case (Some ds)
  then have "py_int ds = Inr (int (dec_val ds))"
    using re_search_chunk_digits py_int_digits by blast
  with Some show ?thesis by (simp add: extract_chunk_number_def)
qed

lemma last_run_aux:
  assumes "ds \<noteq> []" "list_all re_digit ds" "pre = [] \<or> \<not> re_digit (last pre)"
    "\<forall>c\<in>set rest. \<not> re_digit c"
  shows "re_findall_digits (pre @ ds @ rest) \<noteq> [] \<and> last (re_findall_digits (pre @ ds @ rest)) = ds"
  using assms
proof (induction "pre @ ds @ rest" arbitrary: pre rule: re_findall_digits.induct)
  case (1 pre)
  let ?s = "pre @ ds @ rest"
  let ?r = "dropWhile (\<lambda>c. \<not> re_digit c) ?s"
  have hd_ds: "re_digit (hd ds)" using 1(2,3) by (cases ds) auto
  have r_ne: "?r \<noteq> []" using 1(2,3) by (cases ds) auto
  have unfold: "re_findall_digits ?s = takeWhile re_digit ?r # re_findall_digits (dropWhile re_digit ?r)"
    using r_ne by (subst re_findall_digits.simps) (simp add: Let_def del: dropWhile_eq_Nil_conv)
  show ?case
  proof (cases "\<exists>c\<in>set pre. re_digit c")
    case False
    then have r: "?r = ds @ rest"
      using hd_ds 1(2) by (cases ds) (auto simp: dropWhile_append)
    have tw: "takeWhile re_digit (ds @ rest) = ds"
      using 1(3,5) by (cases rest) (auto simp: list_all_iff takeWhile_append)
    have dw: "dropWhile re_digit (ds @ rest) = rest"
      using 1(3,5) by (cases rest) (auto simp: list_all_iff dropWhile_append)
    have "re_findall_digits rest = []"
      using 1(5) by (subst re_findall_digits.simps) (simp add: Let_def)
    with unfold r tw dw show ?thesis by simp
  next
    case True
    define a where "a = takeWhile (\<lambda>c. \<not> re_digit c) pre"
    define b where "b = dropWhile (\<lambda>c. \<not> re_digit c) pre"
    have pre: "pre = a @ b" by (simp add: a_def b_def)
    have b_ne: "b \<noteq> []" using True by (simp add: b_def)
    have r: "?r = b @ ds @ rest"
      using True by (auto simp: b_def dropWhile_append)
    have last_b: "\<not> re_digit (last b)"
      using 1(4) b_ne pre True by (metis last_appendR empty_iff list.set(1))
    define b2 where "b2 = dropWhile re_digit b"
    have b2_ne: "b2 \<noteq> []"
      using last_b b_ne unfolding b2_def
      by (metis dropWhile_eq_Nil_conv last_in_set)
    have dw: "dropWhile re_digit ?r = b2 @ ds @ rest"
      using b2_ne unfolding r b2_def by (auto simp: dropWhile_append)
    have last_b2: "\<not> re_digit (last b2)"
      using last_b b2_ne unfolding b2_def
      by (metis takeWhile_dropWhile_id last_appendR)
    have "re_findall_digits (b2 @ ds @ rest) \<noteq> [] \<and> last (re_findall_digits (b2 @ ds @ rest)) = ds"
      using "1.hyps" [OF refl r_ne dw 1(2,3) _ 1(5)] last_b2 by simp
    with unfold dw show ?thesis by simp
  qed
qed

lemma no_digit_no_marker: "\<forall>c\<in>set f. \<not> re_digit c \<Longrightarrow> \<not> chunk_marker_at j f"
  by (auto simp: chunk_marker_at_def)

lemma re_findall_digits_no_digit: "\<forall>c\<in>set f. \<not> re_digit c \<Longrightarrow> re_findall_digits f = []"
  by (subst re_findall_digits.simps) (simp add: Let_def)

text \<open>
  C3 (as amended). \<open>extract_chunk_number\<close> never raises and returns a non-negative
  integer. Where the file name has the text \<^verbatim>\<open>chunk_\<close> followed by a run of digits, the
  result is the value of the run at the leftmost such place; where it has no such place
  but has digits, the result is the value of the last run of digits; where it has no digit
  the result is 0.
\<close>

theorem extract_chunk_number_cases:
  "(\<exists>n\<ge>0. extract_chunk_number f = Inr n) \<and>
   (f = pre @ ''chunk_'' @ ds @ rest \<and> ds \<noteq> [] \<and> list_all re_digit ds \<and>
      (rest = [] \<or> \<not> re_digit (hd rest)) \<and> (\<forall>j<length pre. \<not> chunk_marker_at j f)
      \<longrightarrow> extract_chunk_number f = Inr (int (dec_val ds))) \<and>
   ((\<forall>j<length f. \<not> chunk_marker_at j f) \<and> f = pre @ ds @ rest \<and> ds \<noteq> [] \<and>
      list_all re_digit ds \<and> (pre = [] \<or> \<not> re_digit (last pre)) \<and>
      (\<forall>c\<in>set rest. \<not> re_digit c)
      \<longrightarrow> extract_chunk_number f = Inr (int (dec_val ds))) \<and>
   ((\<forall>c\<in>set f. \<not> re_digit c) \<longrightarrow> extract_chunk_number f = Inr 0)"
proof (intro conjI impI)
  show "\<exists>n\<ge>0. extract_chunk_number f = Inr n"
    by (rule extract_chunk_number_total)
next
  assume a: "f = pre @ ''chunk_'' @ ds @ rest \<and> ds \<noteq> [] \<and> list_all re_digit ds \<and>
      (rest = [] \<or> \<not> re_digit (hd rest)) \<and> (\<forall>j<length pre. \<not> chunk_marker_at j f)"
  then have f: "f = pre @ ''chunk_'' @ ds @ rest" and ds: "ds \<noteq> []" "list_all re_digit ds"
    and rest: "rest = [] \<or> \<not> re_digit (hd rest)"
    and first: "\<forall>j<length pre. \<not> chunk_marker_at j f"
    by blast+
  have dr: "drop (length pre) f = ''chunk_'' @ ds @ rest" using f by simp
  have "f ! (length pre + 6) = hd ds"
    using f ds(1) by (cases ds) (simp_all add: nth_append)
  moreover have "re_digit (hd ds)" using ds by (cases ds) auto
  ultimately have "chunk_marker_at (length pre) f"
    using ds(1) unfolding chunk_marker_at_def dr by (simp add: f)
  then have "re_search_chunk f = Some (takeWhile re_digit (drop (length pre + 6) f))"
    using first by (rule re_search_chunk_first)
  moreover have "drop (length pre + 6) f = ds @ rest" using f by simp
  moreover have "takeWhile re_digit (ds @ rest) = ds"
    using ds(2) rest by (cases rest) (auto simp: list_all_iff takeWhile_append)
  ultimately have "re_search_chunk f = Some ds" by simp
  then show "extract_chunk_number f = Inr (int (dec_val ds))"
    using ds by (simp add: extract_chunk_number_def py_int_digits)
next
  assume a: "(\<forall>j<length f. \<not> chunk_marker_at j f) \<and> f = pre @ ds @ rest \<and> ds \<noteq> [] \<and>
      list_all re_digit ds \<and> (pre = [] \<or> \<not> re_digit (last pre)) \<and>
      (\<forall>c\<in>set rest. \<not> re_digit c)"
  then have none: "\<forall>j<length f. \<not> chunk_marker_at j f" and f: "f = pre @ ds @ rest"
    and ds: "ds \<noteq> []" "list_all re_digit ds" and pre: "pre = [] \<or> \<not> re_digit (last pre)"
    and rest: "\<forall>c\<in>set rest. \<not> re_digit c"
    by blast+
  have "re_search_chunk f = None" using none by (rule re_search_chunk_none)
  moreover have "re_findall_digits f \<noteq> [] \<and> last (re_findall_digits f) = ds"
    unfolding f using ds pre rest by (rule last_run_aux)
  ultimately show "extract_chunk_number f = Inr (int (dec_val ds))"
    using ds by (simp add: extract_chunk_number_def py_int_digits)
next
  assume a: "\<forall>c\<in>set f. \<not> re_digit c"
  then have "re_search_chunk f = None"
    by (simp add: re_search_chunk_none no_digit_no_marker)
  then show "extract_chunk_number f = Inr 0"
    using a by (simp add: extract_chunk_number_def re_findall_digits_no_digit)
qed

lemma all_less_list_all: "(\<forall>j<n. P j) \<longleftrightarrow> list_all P [0..<n]"
  by (auto simp: list_all_iff)

theorem extract_chunk_number_cases_witness:
  "extract_chunk_number ''MARS_20180413_065913_resampled_24kHz_chunk_004_output.json'' = Inr 4 \<and>
   extract_chunk_number ''segment_017.json'' = Inr 17 \<and>
   extract_chunk_number ''nodigits.json'' = Inr 0"
proof (intro conjI)
  let ?pre = "''MARS_20180413_065913_resampled_24kHz_''"
  let ?f = "?pre @ ''chunk_'' @ ''004'' @ ''_output.json''"
  have digits: "''004'' \<noteq> [] \<and> list_all re_digit ''004''" by code_simp
  have rest: "\<not> re_digit (hd ''_output.json'')" by code_simp
  have "list_all (\<lambda>j. \<not> chunk_marker_at j ?f) [0..<length ?pre]" by code_simp
  then have first: "\<forall>j<length ?pre. \<not> chunk_marker_at j ?f"
    by (rule all_less_list_all [THEN iffD2])
  have "extract_chunk_number ?f = Inr (int (dec_val ''004''))"
    using extract_chunk_number_cases [of ?f ?pre "''004''" "''_output.json''"]
      digits rest first by blast
  moreover have "int (dec_val ''004'') = 4" by code_simp
  moreover have "?f = ''MARS_20180413_065913_resampled_24kHz_chunk_004_output.json''" by simp
  ultimately show
    "extract_chunk_number ''MARS_20180413_065913_resampled_24kHz_chunk_004_output.json'' = Inr 4"
    by (simp only:)
next
  let ?g = "''segment_'' @ ''017'' @ ''.json''"
  have "list_all (\<lambda>j. \<not> chunk_marker_at j ?g) [0..<length ?g]" by code_simp
  then have none: "\<forall>j<length ?g. \<not> chunk_marker_at j ?g"
    by (rule all_less_list_all [THEN iffD2])
  have digits: "''017'' \<noteq> [] \<and> list_all re_digit ''017''" by code_simp
  have pre: "\<not> re_digit (last ''segment_'')" by code_simp
  have rest: "\<forall>c\<in>set ''.json''. \<not> re_digit c" by code_simp
  have "extract_chunk_number ?g = Inr (int (dec_val ''017''))"
    using extract_chunk_number_cases [of ?g "''segment_''" "''017''" "''.json''"]
      none digits pre rest by blast
  moreover have "int (dec_val ''017'') = 17" by code_simp
  moreover have "?g = ''segment_017.json''" by simp
  ultimately show "extract_chunk_number ''segment_017.json'' = Inr 17"
    by (simp only:)
next
  have "\<forall>c\<in>set ''nodigits.json''. \<not> re_digit c" by code_simp
  then show "extract_chunk_number ''nodigits.json'' = Inr 0"
    using extract_chunk_number_cases [of "''nodigits.json''"] by blast
qed

theorem extract_chunk_number_marker_counterexample:
  "list_all re_digit ''5'' \<and> py_int ''5'' = Inr 5 \<and>
   extract_chunk_number (''chunk'' @ ''5'' @ ''_7.json'') = Inr 7"
  by code_simp

section \<open>A document that is a bare scalar\<close>

text \<open>
  C7. A document that is a bare scalar is recorded under the key \<^verbatim>\<open>parent_key\<close>, which is
  the empty string at the top level: the only key of the record is the empty string, not
  a synthetic name. (A top-level list, the neighbouring branch, names its elements
  \<^verbatim>\<open>item_1\<close>, \<^verbatim>\<open>item_2\<close>, and so on when the prefix is empty.)
\<close>

theorem flatten_json_top_level_scalar:
  "flatten_json (JInt 5) [] ''_'' = [([], JInt 5)] \<and>
   flatten_json (JStr ''x'') [] ''_'' = [([], JStr ''x'')] \<and>
   flatten_json (JBool True) [] ''_'' = [([], JBool True)] \<and>
   flatten_json JNull [] ''_'' = [([], JNull)]"
  by (simp add: flatten_json.simps)

section \<open>The values of a flattened record\<close>

lemma size_json_elem: "x \<in> set vs \<Longrightarrow> size x < size (JArr vs)"
  by (induction vs) auto

lemma size_json_entry: "(k, v) \<in> set kvs \<Longrightarrow> size v < size (JObj kvs)"
  by (induction kvs) auto

lemma json_nested_induct [case_names scalar JArr JObj]:
  assumes scalar: "\<And>v. \<not> is_container v \<Longrightarrow> P v"
    and arr: "\<And>vs. (\<And>x. x \<in> set vs \<Longrightarrow> P x) \<Longrightarrow> P (JArr vs)"
    and obj: "\<And>kvs. (\<And>k v. (k, v) \<in> set kvs \<Longrightarrow> P v) \<Longrightarrow>
               (\<And>k vs x. (k, JArr vs) \<in> set kvs \<Longrightarrow> x \<in> set vs \<Longrightarrow> P x) \<Longrightarrow> P (JObj kvs)"
  shows "P data"
proof (induction data rule: measure_induct_rule [where f = size])
  case (less data)
  show ?case
  proof (cases data)
    case (JArr vs)
    have "P x" if "x \<in> set vs" for x
      using that less JArr size_json_elem by blast
    then show ?thesis unfolding JArr by (rule arr)
  next
    case (JObj kvs)
    have 1: "P v" if "(k, v) \<in> set kvs" for k v
      using that less JObj size_json_entry by blast
    have 2: "P x" if "(k, JArr vs) \<in> set kvs" "x \<in> set vs" for k vs x
    proof -
      have "size x < size (JArr vs)" using that(2) by (rule size_json_elem)
      also have "\<dots> < size (JObj kvs)" using that(1) by (rule size_json_entry)
      finally show ?thesis using less JObj by blast
    qed
    show ?thesis unfolding JObj using 1 2 by (rule obj)
  qed (simp_all add: scalar)
qed

lemma foldl_invariant:
  assumes "I a" and "\<And>acc x. x \<in> set xs \<Longrightarrow> I acc \<Longrightarrow> I (f acc x)"
  shows "I (foldl f a xs)"
  using assms by (induction xs arbitrary: a) auto

lemma set_dict_set: "set (dict_set d k v) \<subseteq> insert (k, v) (set d)"
  by (induction d) (auto split: if_splits)

lemma set_natsorted_by_str [simp]: "set (natsorted_by_str pairs) = set pairs"
  by (simp add: natsorted_by_str_def)

lemma in_enumerate_snd: "x \<in> set (enumerate n vs) \<Longrightarrow> snd x \<in> set vs"
  by (metis in_set_zipE enumerate_eq_zip prod.collapse)

lemma scalar_values_dict_set:
  "scalar_values d \<Longrightarrow> \<not> is_container v \<Longrightarrow> scalar_values (dict_set d k v)"
  using set_dict_set [of d k v] unfolding scalar_values_def by auto

lemma scalar_values_dict_update:
  assumes "scalar_values d" and "scalar_values other"
  shows "scalar_values (dict_update d other)"
  unfolding dict_update_def
proof (rule foldl_invariant [where I = scalar_values])
  show "scalar_values d" by (rule assms(1))
next
  fix acc :: py_dict and x
  assume x: "x \<in> set other" and acc: "scalar_values acc"
  from x assms(2) have "\<not> is_container (snd x)"
    unfolding scalar_values_def by auto
  with acc show "scalar_values (case x of (k, v) \<Rightarrow> dict_set acc k v)"
    by (simp add: split_def scalar_values_dict_set)
qed

lemma scalar_values_expand_list:
  assumes "scalar_values items"
    and "\<And>x key. x \<in> set pairs \<Longrightarrow> is_container (snd x) \<Longrightarrow> scalar_values (flatten_json (snd x) key sep)"
  shows "scalar_values (expand_list prefix sep items pairs)"
  unfolding expand_list_def
proof (rule foldl_invariant [where I = scalar_values])
  show "scalar_values items" by (rule assms(1))
next
  fix acc :: py_dict and x
  assume "x \<in> set pairs" and "scalar_values acc"
  then show "scalar_values (expand_item prefix sep acc x)"
    using assms(2) [of x]
    by (simp add: expand_item_def scalar_values_dict_set scalar_values_dict_update)
qed

lemma flatten_json_scalar_values: "scalar_values (flatten_json data parent_key sep)"
proof (induction data arbitrary: parent_key rule: json_nested_induct)
  case (scalar v)
  then show ?case
    by (cases v) (simp_all add: flatten_json.simps scalar_values_def)
next
  case (JArr vs)
  show ?case
    unfolding flatten_json_JArr
  proof (rule scalar_values_expand_list)
    show "scalar_values []" by (simp add: scalar_values_def)
  next
    fix x key
    assume "x \<in> set (natsorted_by_str (enumerate 0 vs))"
    then have "snd x \<in> set vs" by (simp add: in_enumerate_snd)
    then show "scalar_values (flatten_json (snd x) key sep)" by (rule JArr.IH)
  qed
next
  case (JObj kvs)
  show ?case
    unfolding flatten_json_JObj
  proof (rule foldl_invariant [where I = scalar_values])
    show "scalar_values []" by (simp add: scalar_values_def)
  next
    fix acc :: py_dict and x
    assume x: "x \<in> set kvs" and acc: "scalar_values acc"
    let ?new_key = "if parent_key \<noteq> [] then parent_key @ sep @ fst x else fst x"
    show "scalar_values (flatten_entry parent_key sep acc x)"
    proof (cases "snd x")
      case (JArr vs)
      have "scalar_values (expand_list ?new_key sep acc (natsorted_by_str (enumerate 0 vs)))"
      proof (rule scalar_values_expand_list [OF acc])
        fix y key
        assume "y \<in> set (natsorted_by_str (enumerate 0 vs))"
        then have "snd y \<in> set vs" by (simp add: in_enumerate_snd)
        moreover have "(fst x, JArr vs) \<in> set kvs" using x JArr by (metis prod.collapse)
        ultimately show "scalar_values (flatten_json (snd y) key sep)"
          by (rule JObj.IH(2) [rotated])
      qed
      with JArr show ?thesis by (simp add: flatten_entry_def)
    next
      case (JObj kvs')
      have "(fst x, snd x) \<in> set kvs" using x by simp
      then have "scalar_values (flatten_json (snd x) ?new_key sep)" by (rule JObj.IH(1))
      with acc JObj show ?thesis
        by (simp add: flatten_entry_def scalar_values_dict_update)
    qed (use acc in \<open>simp_all add: flatten_entry_def scalar_values_dict_set\<close>)
  qed
qed

lemma dict_update_Nil [simp]: "dict_update items [] = items"
  by (simp add: dict_update_def)

lemma expand_list_Nil [simp]: "expand_list prefix sep items [] = items"
  by (simp add: expand_list_def)

lemma natsorted_by_str_Nil [simp]: "natsorted_by_str [] = []"
  by (simp add: natsorted_by_str_def)

lemma flatten_json_empty [simp]:
  "flatten_json (JObj []) parent_key sep = []" "flatten_json (JArr []) parent_key sep = []"
  by (simp_all add: flatten_json_JObj flatten_json_JArr)

text \<open>
  C8. Every value of the record \<open>flatten_json\<close> returns is a scalar, never an object or an
  array. An empty object or an empty array gives the empty record under every prefix, and
  where one is met as an entry of an object or as an element of a list, the record built so
  far is left as it is.
\<close>

theorem flatten_json_values_scalar:
  "(\<forall>(k, v)\<in>set (flatten_json data parent_key sep). \<not> is_container v) \<and>
   flatten_json (JObj []) parent_key sep = [] \<and>
   flatten_json (JArr []) parent_key sep = [] \<and>
   flatten_entry parent_key sep items (key, JObj []) = items \<and>
   flatten_entry parent_key sep items (key, JArr []) = items \<and>
   expand_item parent_key sep items (i, JObj []) = items \<and>
   expand_item parent_key sep items (i, JArr []) = items"
  using flatten_json_scalar_values [of data parent_key sep]
  by (simp add: scalar_values_def flatten_entry_def expand_item_def)

theorem flatten_json_values_scalar_witness:
  "flatten_json (JObj [(''a'', JObj [(''b'', JInt 1), (''c'', JArr [JObj [(''d'', JNull)], JArr []])]),
                       (''e'', JObj [])]) [] ''_''
     = [(''a_b'', JInt 1), (''a_c_1_d'', JNull)] \<and>
   \<not> is_container (JInt 1) \<and> \<not> is_container JNull"
proof -
  let ?doc = "JObj [(''a'', JObj [(''b'', JInt 1), (''c'', JArr [JObj [(''d'', JNull)], JArr []])]),
                    (''e'', JObj [])]"
  have eq: "flatten_json ?doc [] ''_'' = [(''a_b'', JInt 1), (''a_c_1_d'', JNull)]"
    by code_simp
  have "\<forall>(k, v)\<in>set (flatten_json ?doc [] ''_''). \<not> is_container v"
    using flatten_json_values_scalar [of ?doc "[]" "''_''"] by blast
  then have "\<not> is_container (JInt 1) \<and> \<not> is_container JNull"
    unfolding eq by simp
  with eq show ?thesis by simp
qed

section \<open>The shape of a sort key\<close>

lemma re_split_digits_shape: "split_shape (re_split_digits s)"
proof (induction s rule: re_split_digits.induct)
  case (1 s)
  let ?a = "takeWhile (\<lambda>c. \<not> re_digit c) s"
  let ?r = "dropWhile (\<lambda>c. \<not> re_digit c) s"
  have a: "\<forall>c\<in>set ?a. \<not> re_digit c" by (auto dest: set_takeWhileD)
  show ?case
  proof (cases "?r = []")
    case True
    then have "re_split_digits s = [?a]"
      by (subst re_split_digits.simps) (simp add: Let_def del: dropWhile_eq_Nil_conv)
    with a show ?thesis by simp
  next
    case False
    then have eq: "re_split_digits s = ?a # takeWhile re_digit ?r # re_split_digits (dropWhile re_digit ?r)"
      by (subst re_split_digits.simps) (simp add: Let_def del: dropWhile_eq_Nil_conv)
    have "re_digit (hd ?r)"
      using False hd_dropWhile [of "\<lambda>c. \<not> re_digit c" s] by auto
    then have "takeWhile re_digit ?r \<noteq> []"
      using False by (cases ?r) auto
    moreover have "list_all re_digit (takeWhile re_digit ?r)"
      by (auto simp: list_all_iff dest: set_takeWhileD)
    moreover have "split_shape (re_split_digits (dropWhile re_digit ?r))"
      using "1.IH" [OF refl False] .
    ultimately show ?thesis using a unfolding eq by simp
  qed
qed

lemma concat_re_split_digits: "concat (re_split_digits s) = s"
proof (induction s rule: re_split_digits.induct)
  case (1 s)
  let ?a = "takeWhile (\<lambda>c. \<not> re_digit c) s"
  let ?r = "dropWhile (\<lambda>c. \<not> re_digit c) s"
  show ?case
  proof (cases "?r = []")
    case True
    then have "re_split_digits s = [?a]"
      by (subst re_split_digits.simps) (simp add: Let_def del: dropWhile_eq_Nil_conv)
    moreover have "?a @ ?r = s" by simp
    ultimately show ?thesis using True by (simp del: dropWhile_eq_Nil_conv takeWhile_dropWhile_id)
  next
    case False
    then have eq: "re_split_digits s = ?a # takeWhile re_digit ?r # re_split_digits (dropWhile re_digit ?r)"
      by (subst re_split_digits.simps) (simp add: Let_def del: dropWhile_eq_Nil_conv)
    have "concat (re_split_digits (dropWhile re_digit ?r)) = dropWhile re_digit ?r"
      using "1.IH" [OF refl False] .
    then have "concat (re_split_digits s) = ?a @ (takeWhile re_digit ?r @ dropWhile re_digit ?r)"
      unfolding eq by simp
    then show ?thesis by simp
  qed
qed

lemma re_digit_code: "re_digit c \<Longrightarrow> 48 \<le> (of_char c :: nat) \<and> (of_char c :: nat) \<le> 57"
  by (auto simp: re_digit_def)

lemma of_char_lower_char_upper:
  assumes "(65 \<le> (of_char c :: nat) \<and> (of_char c :: nat) \<le> 90) \<or>
         (192 \<le> (of_char c :: nat) \<and> (of_char c :: nat) \<le> 222 \<and> (of_char c :: nat) \<noteq> 215)"
  shows "(of_char (lower_char c) :: nat) = of_char c + 32"
proof -
  have "lower_char c = char_of ((of_char c :: nat) + 32)"
    using assms by (simp add: lower_char_def Let_def)
  moreover have "((of_char c :: nat) + 32) mod 256 = of_char c + 32"
    using assms by (intro mod_less) arith
  ultimately show ?thesis by (simp only: of_char_of)
qed

lemma lower_char_other:
  assumes "\<not> ((65 \<le> (of_char c :: nat) \<and> (of_char c :: nat) \<le> 90) \<or>
         (192 \<le> (of_char c :: nat) \<and> (of_char c :: nat) \<le> 222 \<and> (of_char c :: nat) \<noteq> 215))"
  shows "lower_char c = c"
  unfolding lower_char_def Let_def using assms by (rule if_not_P)

lemma re_digit_lower_char: "re_digit (lower_char c) \<Longrightarrow> re_digit c"
proof (cases "(65 \<le> (of_char c :: nat) \<and> (of_char c :: nat) \<le> 90) \<or>
         (192 \<le> (of_char c :: nat) \<and> (of_char c :: nat) \<le> 222 \<and> (of_char c :: nat) \<noteq> 215)")
  case True
  assume "re_digit (lower_char c)"
  then have "(of_char (lower_char c) :: nat) \<le> 57" by (simp add: re_digit_code)
  moreover have "(of_char (lower_char c) :: nat) = of_char c + 32"
    using True by (rule of_char_lower_char_upper)
  ultimately show ?thesis using True by arith
next
  case False
  assume "re_digit (lower_char c)"
  then show ?thesis unfolding lower_char_other [OF False] .
qed

lemma lower_char_idem: "lower_char (lower_char c) = lower_char c"
proof (cases "(65 \<le> (of_char c :: nat) \<and> (of_char c :: nat) \<le> 90) \<or>
         (192 \<le> (of_char c :: nat) \<and> (of_char c :: nat) \<le> 222 \<and> (of_char c :: nat) \<noteq> 215)")
  case True
  then have eq: "(of_char (lower_char c) :: nat) = of_char c + 32"
    by (rule of_char_lower_char_upper)
  have "\<not> ((65 \<le> (of_char (lower_char c) :: nat) \<and> (of_char (lower_char c) :: nat) \<le> 90) \<or>
         (192 \<le> (of_char (lower_char c) :: nat) \<and> (of_char (lower_char c) :: nat) \<le> 222
            \<and> (of_char (lower_char c) :: nat) \<noteq> 215))"
    unfolding eq using True by arith
  then show ?thesis by (rule lower_char_other)
next
  case False
  show ?thesis unfolding lower_char_other [OF False] ..
qed

lemma lower_idem: "lower (lower u) = lower u"
  by (simp add: lower_def lower_char_idem)

lemma lower_no_digit: "\<forall>c\<in>set u. \<not> re_digit c \<Longrightarrow> \<forall>c\<in>set (lower u). \<not> re_digit c"
  using re_digit_lower_char by (auto simp: lower_def)

lemma natsort_key_eq: "natsort_key s = map key_piece (re_split_digits s)"
  by (simp add: natsort_key_def key_piece_def)

lemma key_piece_text: "\<forall>c\<in>set a. \<not> re_digit c \<Longrightarrow> key_piece a = TStr (lower a)"
  by (cases a) (auto simp: key_piece_def)

lemma key_shape_pieces: "split_shape ps \<Longrightarrow> key_shape (map key_piece ps)"
proof (induction ps rule: split_shape.induct)
  case (1 a)
  then show ?case by (simp add: key_piece_text lower_no_digit lower_idem)
next
  case (2 a d rest)
  then have a: "\<forall>c\<in>set a. \<not> re_digit c" and rest: "key_shape (map key_piece rest)"
    by simp_all
  have "key_piece d = TInt (int (dec_val d))" using 2 by (simp add: key_piece_def)
  moreover have "key_piece a = TStr (lower a)" using a by (rule key_piece_text)
  moreover have "\<forall>c\<in>set (lower a). \<not> re_digit c" using a by (rule lower_no_digit)
  ultimately show ?case using rest by (simp add: lower_idem)
qed simp

lemma natsort_key_shape: "key_shape (natsort_key s)"
  unfolding natsort_key_eq by (rule key_shape_pieces) (rule re_split_digits_shape)

lemma re_digit_isdigit_char: "re_digit c \<Longrightarrow> isdigit_char c"
  by (simp add: isdigit_char_def)

lemma piece_cases:
  "(if isdigit text then map_sum id TInt (py_int text) else Inr (TStr (lower text)))
     = (if isdigit text \<and> \<not> list_all re_digit text then Inl ValueError_int else Inr (key_piece text))"
  by (auto simp: py_int_def key_piece_def isdigit_def list_all_iff re_digit_isdigit_char)

lemma sequence_sum_map_Inr: "sequence_sum (map (\<lambda>x. Inr (g x)) xs) = Inr (map g xs)"
  by (induction xs) simp_all

lemma sequence_sum_cases:
  "sequence_sum (map (\<lambda>x. if bad x then Inl e else Inr (g x)) xs)
     = (if \<exists>x\<in>set xs. bad x then Inl e else Inr (map g xs))"
  by (induction xs) (auto split: sum.splits)

lemma natural_sort_key_eq:
  "natural_sort_key s =
     (if \<exists>p\<in>set (re_split_digits s). bad_piece p then Inl ValueError_int else Inr (natsort_key s))"
  unfolding natural_sort_key_def piece_cases natsort_key_eq bad_piece_def [symmetric]
  by (rule sequence_sum_cases)

lemma natural_sort_key_cases:
  "natural_sort_key s = Inr (natsort_key s) \<or> natural_sort_key s = Inl ValueError_int"
  by (simp add: natural_sort_key_eq)

lemma natural_sort_key_ascii:
  assumes "ascii_digits_only s"
  shows "natural_sort_key s = Inr (natsort_key s)"
proof -
  have "\<not> bad_piece p" if "p \<in> set (re_split_digits s)" for p
  proof -
    have "set p \<subseteq> set (concat (re_split_digits s))" using that by auto
    then have "set p \<subseteq> set s" by (simp only: concat_re_split_digits)
    then show ?thesis
      using assms by (auto simp: bad_piece_def isdigit_def list_all_iff ascii_digits_only_def)
  qed
  then show ?thesis by (simp add: natural_sort_key_eq)
qed

lemma less_tok_simps [simp]:
  "TStr a < TStr b \<longleftrightarrow> a < b" "TInt m < TInt n \<longleftrightarrow> m < n"
  by (auto simp: less_tok_def)

lemma key_shape_same_kinds: "key_shape a \<Longrightarrow> key_shape b \<Longrightarrow> same_kinds a b"
proof (induction a arbitrary: b rule: key_shape.induct)
  case (1 u)
  then show ?case by (cases b rule: key_shape.cases) simp_all
next
  case (2 u n rest)
  from "2.prems"(2) show ?case
  proof (cases b rule: key_shape.cases)
    case (2 v m rest')
    with "2.prems" "2.IH" show ?thesis by simp
  qed (use "2.prems" in simp_all)
qed simp_all

lemma key_lt_Nil: "key_lt [] b = Inr ([] < b)"
  by (cases b) simp_all

lemma key_lt_Nil2: "key_lt a [] = Inr (a < [])"
  by (cases a) simp_all

lemma same_kinds_key_lt: "same_kinds a b \<Longrightarrow> key_lt a b = Inr (a < b)"
  by (induction a b rule: same_kinds.induct) (auto simp: key_lt_Nil key_lt_Nil2)

section \<open>Python's sort and the library's stable sort\<close>

lemma insort_lt_eq:
  "\<forall>y\<in>set ys. key_lt (fst y) (fst x) = Inr (fst y < fst x) \<Longrightarrow>
   insort_lt x ys = Inr (insort_key fst x ys)"
  by (induction ys) (auto simp: not_less)

lemma sort_lt_eq:
  "\<forall>x\<in>set ps. \<forall>y\<in>set ps. key_lt (fst y) (fst x) = Inr (fst y < fst x) \<Longrightarrow>
   sort_lt ps = Inr (sort_key fst ps)"
proof (induction ps)
  case Nil
  then show ?case by simp
next
  case (Cons p ps)
  then have "sort_lt ps = Inr (sort_key fst ps)" by simp
  moreover have "\<forall>y\<in>set (sort_key fst ps). key_lt (fst y) (fst p) = Inr (fst y < fst p)"
    using Cons.prems by simp
  ultimately show ?case by (simp add: insort_lt_eq)
qed

lemma map_snd_insort_key:
  "\<forall>p\<in>set ps. fst p = f (snd p) \<Longrightarrow>
   map snd (insort_key fst (f x, x) ps) = insort_key f x (map snd ps)"
  by (induction ps) auto

lemma set_sort_key_zip:
  "p \<in> set (sort_key fst (zip (map f xs) xs)) \<Longrightarrow> fst p = f (snd p)"
  by (auto simp: set_zip)

lemma map_snd_sort_key_zip: "map snd (sort_key fst (zip (map f xs) xs)) = sort_key f xs"
proof (induction xs)
  case Nil
  then show ?case by simp
next
  case (Cons x xs)
  have "map snd (insort_key fst (f x, x) (sort_key fst (zip (map f xs) xs)))
      = insort_key f x (map snd (sort_key fst (zip (map f xs) xs)))"
    by (rule map_snd_insort_key) (auto simp: set_zip)
  with Cons show ?case by simp
qed

lemma natural_sort_key_fun:
  "natural_sort_key = (\<lambda>s. if natural_sort_key s = Inl ValueError_int then Inl ValueError_int
                            else Inr (natsort_key s))"
  using natural_sort_key_cases by (intro ext) auto

lemma py_sort_key_natural:
  "py_sort_key natural_sort_key xs =
     (if \<exists>x\<in>set xs. natural_sort_key x = Inl ValueError_int then Inl ValueError_int
      else Inr (sort_key natsort_key xs))"
proof -
  have seq: "sequence_sum (map natural_sort_key xs) =
     (if \<exists>x\<in>set xs. natural_sort_key x = Inl ValueError_int then Inl ValueError_int
      else Inr (map natsort_key xs))"
    by (subst natural_sort_key_fun) (rule sequence_sum_cases)
  have "sort_lt (zip (map natsort_key xs) xs) = Inr (sort_key fst (zip (map natsort_key xs) xs))"
  proof (rule sort_lt_eq, intro ballI)
    fix x y
    assume "x \<in> set (zip (map natsort_key xs) xs)" "y \<in> set (zip (map natsort_key xs) xs)"
    then have "key_shape (fst x)" "key_shape (fst y)"
      by (auto simp: set_zip natsort_key_shape)
    then show "key_lt (fst y) (fst x) = Inr (fst y < fst x)"
      by (intro same_kinds_key_lt key_shape_same_kinds)
  qed
  then show ?thesis
    unfolding py_sort_key_def seq by (simp add: map_snd_sort_key_zip)
qed

lemma key_shape_nth:
  "key_shape k \<Longrightarrow> i < length k \<Longrightarrow>
   (if even i then (\<exists>u. k ! i = TStr u \<and> (\<forall>c\<in>set u. \<not> re_digit c) \<and> lower u = u)
    else (\<exists>n. k ! i = TInt n))"
proof (induction k arbitrary: i rule: key_shape.induct)
  case (1 u)
  then show ?case by simp
next
  case (2 u n rest)
  show ?case
  proof (cases i)
    case 0
    with "2.prems" show ?thesis by simp
  next
    case (Suc j)
    show ?thesis
    proof (cases j)
      case 0
      with Suc show ?thesis by simp
    next
      case (Suc l)
      with \<open>i = Suc j\<close> "2.prems" have "l < length rest" "key_shape rest" by simp_all
      then have "if even l then (\<exists>u. rest ! l = TStr u \<and> (\<forall>c\<in>set u. \<not> re_digit c) \<and> lower u = u)
                 else (\<exists>n. rest ! l = TInt n)"
        using "2.IH" by blast
      with Suc \<open>i = Suc j\<close> show ?thesis by simp
    qed
  qed
qed simp_all

text \<open>
  C10. Where every character of a string that \<^verbatim>\<open>str.isdigit\<close> accepts is one of \<^verbatim>\<open>0\<close> to
  \<^verbatim>\<open>9\<close>, \<open>natural_sort_key\<close> returns a key: at every even index a text free of digits
  and in lower case, at every odd index an integer. Comparing the keys of two such strings
  with \<^verbatim>\<open><\<close> returns a truth value and raises no \<^verbatim>\<open>TypeError\<close>, and sorting a list of such
  strings by this key returns a rearrangement of the list.
\<close>

theorem natural_sort_key_alternating:
  "(ascii_digits_only s \<and> ascii_digits_only t \<longrightarrow>
      (\<exists>ks kt. natural_sort_key s = Inr ks \<and> natural_sort_key t = Inr kt \<and>
         (\<forall>i<length ks.
            if even i then (\<exists>u. ks ! i = TStr u \<and> (\<forall>c\<in>set u. \<not> re_digit c) \<and> lower u = u)
            else (\<exists>n. ks ! i = TInt n)) \<and>
         (\<exists>b. key_lt ks kt = Inr b))) \<and>
   ((\<forall>x\<in>set xs. ascii_digits_only x) \<longrightarrow>
      (\<exists>ys. py_sort_key natural_sort_key xs = Inr ys \<and> mset ys = mset xs))"
proof (intro conjI impI)
  assume a: "ascii_digits_only s \<and> ascii_digits_only t"
  then have s: "natural_sort_key s = Inr (natsort_key s)"
    and t: "natural_sort_key t = Inr (natsort_key t)"
    by (simp_all add: natural_sort_key_ascii)
  have "key_lt (natsort_key s) (natsort_key t) = Inr (natsort_key s < natsort_key t)"
    by (intro same_kinds_key_lt key_shape_same_kinds natsort_key_shape)
  then show "\<exists>ks kt. natural_sort_key s = Inr ks \<and> natural_sort_key t = Inr kt \<and>
         (\<forall>i<length ks.
            if even i then (\<exists>u. ks ! i = TStr u \<and> (\<forall>c\<in>set u. \<not> re_digit c) \<and> lower u = u)
            else (\<exists>n. ks ! i = TInt n)) \<and>
         (\<exists>b. key_lt ks kt = Inr b)"
    using s t key_shape_nth [OF natsort_key_shape [of s]] by blast
next
  assume "\<forall>x\<in>set xs. ascii_digits_only x"
  then have "\<forall>x\<in>set xs. natural_sort_key x \<noteq> Inl ValueError_int"
    by (simp add: natural_sort_key_ascii)
  then have "py_sort_key natural_sort_key xs = Inr (sort_key natsort_key xs)"
    by (simp add: py_sort_key_natural)
  then show "\<exists>ys. py_sort_key natural_sort_key xs = Inr ys \<and> mset ys = mset xs"
    by simp
qed

theorem natural_sort_key_alternating_witness:
  "ascii_digits_only ''item_10b'' \<and> ascii_digits_only ''Item_2'' \<and>
   natural_sort_key ''item_10b'' = Inr [TStr ''item_'', TInt 10, TStr ''b''] \<and>
   natural_sort_key ''Item_2'' = Inr [TStr ''item_'', TInt 2, TStr ''''] \<and>
   key_lt [TStr ''item_'', TInt 10, TStr ''b''] [TStr ''item_'', TInt 2, TStr ''''] = Inr False \<and>
   py_sort_key natural_sort_key [''item_10b'', ''Item_2'', ''item_1'']
     = Inr [''item_1'', ''Item_2'', ''item_10b'']"
proof -
  have a: "ascii_digits_only ''item_10b''" "ascii_digits_only ''Item_2''"
    "ascii_digits_only ''item_1''"
    by code_simp+
  have k: "natural_sort_key ''item_10b'' = Inr [TStr ''item_'', TInt 10, TStr ''b'']"
    "natural_sort_key ''Item_2'' = Inr [TStr ''item_'', TInt 2, TStr '''']"
    by code_simp+
  have "\<exists>b. key_lt [TStr ''item_'', TInt 10, TStr ''b''] [TStr ''item_'', TInt 2, TStr ''''] = Inr b"
    using natural_sort_key_alternating [of "''item_10b''" "''Item_2''"] a k by force
  moreover have "key_lt [TStr ''item_'', TInt 10, TStr ''b''] [TStr ''item_'', TInt 2, TStr '''']
      \<noteq> Inr True"
    by code_simp
  ultimately have lt: "key_lt [TStr ''item_'', TInt 10, TStr ''b''] [TStr ''item_'', TInt 2, TStr '''']
      = Inr False"
    by auto
  have all: "\<forall>x\<in>set [''item_10b'', ''Item_2'', ''item_1'']. ascii_digits_only x"
    using a by simp
  have "\<exists>ys. py_sort_key natural_sort_key [''item_10b'', ''Item_2'', ''item_1''] = Inr ys"
    using natural_sort_key_alternating
      [of "''item_1''" "''item_1''" "[''item_10b'', ''Item_2'', ''item_1'']"] all
    by blast
  moreover have "py_sort_key natural_sort_key [''item_10b'', ''Item_2'', ''item_1'']
      = Inr [''item_1'', ''Item_2'', ''item_10b'']"
    by code_simp
  ultimately have "py_sort_key natural_sort_key [''item_10b'', ''Item_2'', ''item_1'']
      = Inr [''item_1'', ''Item_2'', ''item_10b'']"
    by simp
  with a k lt show ?thesis by simp
qed

section \<open>A list of scalars under a key\<close>

lemma dec_val_snoc: "dec_val (ds @ [c]) = 10 * dec_val ds + digit_val c"
  by (simp add: dec_val_def)

lemma digit_val_digit_char: "d < 10 \<Longrightarrow> digit_val (digit_char d) = d"
  by (simp add: digit_val_def digit_char_def)

lemma dec_val_str_nat: "dec_val (str_nat n) = n"
proof (induction n rule: str_nat.induct)
  case (1 n)
  show ?case
  proof (cases "n < 10")
    case True
    then show ?thesis
      by (subst str_nat.simps) (simp add: dec_val_def digit_val_digit_char)
  next
    case False
    then have "dec_val (str_nat (n div 10)) = n div 10" by (rule "1.IH")
    then show ?thesis
      using False by (subst str_nat.simps) (simp add: dec_val_snoc digit_val_digit_char)
  qed
qed

lemma str_nat_inj: "str_nat m = str_nat n \<Longrightarrow> m = n"
  by (metis dec_val_str_nat)

lemma map_of_dict_set: "map_of (dict_set d k v) = (map_of d)(k \<mapsto> v)"
  by (induction d) auto

lemma dict_set_fresh: "k \<notin> fst ` set d \<Longrightarrow> dict_set d k v = d @ [(k, v)]"
  by (induction d) auto

lemma distinct_fst_natsorted:
  "distinct (map fst (natsorted_by_str (enumerate n vs)))"
proof -
  have "mset (natsorted_by_str (enumerate n vs)) = mset (enumerate n vs)"
    by (simp add: natsorted_by_str_def)
  then have "mset (map fst (natsorted_by_str (enumerate n vs))) = mset (map fst (enumerate n vs))"
    by (simp only: mset_map)
  moreover have "distinct (map fst (enumerate n vs))" by simp
  ultimately show ?thesis by (metis mset_eq_imp_distinct_iff)
qed

lemma expand_list_scalars:
  assumes "\<forall>x\<in>set pairs. \<not> is_container (snd x)"
    and "distinct (map fst pairs)"
    and "\<forall>x\<in>set pairs. prefix @ ''_'' @ str_nat (fst x + 1) \<notin> fst ` set items"
  shows "expand_list prefix sep items pairs
           = items @ map (\<lambda>(i, x). (prefix @ ''_'' @ str_nat (i + 1), x)) pairs"
  using assms
proof (induction pairs arbitrary: items)
  case Nil
  then show ?case by (simp add: expand_list_def)
next
  case (Cons p pairs)
  let ?key = "\<lambda>i. prefix @ ''_'' @ str_nat (i + 1)"
  have step: "expand_item prefix sep items p = items @ [(?key (fst p), snd p)]"
    using Cons.prems by (simp add: expand_item_def dict_set_fresh)
  have fresh: "\<forall>x\<in>set pairs. ?key (fst x) \<notin> fst ` set (items @ [(?key (fst p), snd p)])"
  proof
    fix x assume x: "x \<in> set pairs"
    then have "fst x \<noteq> fst p" using Cons.prems(2) by (metis distinct.simps(2) image_eqI list.simps(9) set_map)
    then have "?key (fst x) \<noteq> ?key (fst p)" using str_nat_inj by auto
    moreover have "?key (fst x) \<notin> fst ` set items" using Cons.prems(3) x by simp
    ultimately show "?key (fst x) \<notin> fst ` set (items @ [(?key (fst p), snd p)])" by auto
  qed
  have "expand_list prefix sep (items @ [(?key (fst p), snd p)]) pairs
      = (items @ [(?key (fst p), snd p)]) @ map (\<lambda>(i, x). (?key i, x)) pairs"
    using Cons.prems fresh by (intro Cons.IH) simp_all
  then show ?case
    using step by (simp add: expand_list_def split_def)
qed

lemma flatten_json_single_list:
  assumes "\<forall>v\<in>set vs. \<not> is_container v"
  shows "flatten_json (JObj [(k, JArr vs)]) [] sep
       = map (\<lambda>(i, x). (k @ ''_'' @ str_nat (i + 1), x)) (natsorted_by_str (enumerate 0 vs))"
proof -
  have "\<forall>x\<in>set (natsorted_by_str (enumerate 0 vs)). \<not> is_container (snd x)"
    using assms by (auto dest: in_enumerate_snd)
  then have "expand_list k sep [] (natsorted_by_str (enumerate 0 vs))
      = [] @ map (\<lambda>(i, x). (k @ ''_'' @ str_nat (i + 1), x)) (natsorted_by_str (enumerate 0 vs))"
    by (intro expand_list_scalars distinct_fst_natsorted) simp_all
  then show ?thesis by (simp add: flatten_json_JObj flatten_entry_def)
qed

lemma sorted_natsorted_by_str:
  "sorted (map (\<lambda>x. natsort_key (py_str (snd x))) (natsorted_by_str pairs))"
  by (simp add: natsorted_by_str_def)

lemma map_add_upd_fresh: "M k = None \<Longrightarrow> (m(k \<mapsto> v)) ++ M = m ++ (M(k \<mapsto> v))"
  by (rule ext) (simp add: map_add_def split: option.splits)

lemma map_of_expand_list_scalars:
  assumes "\<forall>x\<in>set pairs. \<not> is_container (snd x)" and "distinct (map fst pairs)"
  shows "map_of (expand_list prefix sep items pairs)
           = map_of items ++ map_of (map (\<lambda>(i, x). (prefix @ ''_'' @ str_nat (i + 1), x)) pairs)"
  using assms
proof (induction pairs arbitrary: items)
  case Nil
  then show ?case by (simp add: expand_list_def)
next
  case (Cons p pairs)
  let ?key = "\<lambda>i. prefix @ ''_'' @ str_nat (i + 1)"
  let ?M = "map_of (map (\<lambda>(i, x). (?key i, x)) pairs)"
  have step: "expand_item prefix sep items p = dict_set items (?key (fst p)) (snd p)"
    using Cons.prems by (simp add: expand_item_def)
  have "?key (fst p) \<notin> dom ?M"
  proof
    assume "?key (fst p) \<in> dom ?M"
    then obtain v where "?M (?key (fst p)) = Some v" by blast
    then have "(?key (fst p), v) \<in> set (map (\<lambda>(i, x). (?key i, x)) pairs)"
      by (rule map_of_SomeD)
    then obtain x where x: "x \<in> set pairs" "?key (fst x) = ?key (fst p)" by auto
    then have "fst x = fst p" using str_nat_inj by auto
    with x(1) Cons.prems(2) show False
      by (metis distinct.simps(2) image_eqI list.simps(9) set_map)
  qed
  then have none: "?M (?key (fst p)) = None" by blast
  have "map_of (expand_list prefix sep (dict_set items (?key (fst p)) (snd p)) pairs)
      = map_of (dict_set items (?key (fst p)) (snd p)) ++ ?M"
    using Cons.prems by (intro Cons.IH) simp_all
  also have "\<dots> = (map_of items)(?key (fst p) \<mapsto> snd p) ++ ?M"
    by (simp only: map_of_dict_set)
  also have "\<dots> = map_of items ++ (?M(?key (fst p) \<mapsto> snd p))"
    using none by (rule map_add_upd_fresh)
  also have "?M(?key (fst p) \<mapsto> snd p) = map_of (map (\<lambda>(i, x). (?key i, x)) (p # pairs))"
    by (simp add: split_def)
  finally have "map_of (expand_list prefix sep (expand_item prefix sep items p) pairs)
      = map_of items ++ map_of (map (\<lambda>(i, x). (?key i, x)) (p # pairs))"
    unfolding step .
  then show ?case by (simp only: expand_list_def foldl_Cons)
qed

text \<open>
  C1. For an object whose only entry is a list of scalars under the key \<open>k\<close>,
  \<open>flatten_json\<close> pairs each element with its position, orders the pairs by the natural
  sort key of the element's text (the order is a rearrangement of the pairs, sorted by that
  key), and writes for each pair, in that order, the key \<open>k\<close>, an underscore and the
  position plus one, with the element as value. Also where other entries come before the
  list, the record has the element at position \<open>i\<close> under the key with suffix \<open>i + 1\<close>.
  For \<^verbatim>\<open>{"tags": ["b", "a", "c"]}\<close> the record is \<^verbatim>\<open>tags_2 = a\<close>, \<^verbatim>\<open>tags_1 = b\<close>,
  \<^verbatim>\<open>tags_3 = c\<close>: the suffix is the position in the document, not the rank.
\<close>

theorem flatten_json_list_of_scalars:
  "((\<forall>v\<in>set vs. \<not> is_container v) \<longrightarrow>
      flatten_json (JObj [(k, JArr vs)]) [] sep
        = map (\<lambda>(i, x). (k @ ''_'' @ str_nat (i + 1), x)) (natsorted_by_str (enumerate 0 vs)) \<and>
      (\<forall>i<length vs. map_of (flatten_json (JObj (pre @ [(k, JArr vs)])) [] sep)
                         (k @ ''_'' @ str_nat (i + 1)) = Some (vs ! i))) \<and>
   mset (natsorted_by_str (enumerate 0 vs)) = mset (enumerate 0 vs) \<and>
   sorted (map (\<lambda>(i, x). natsort_key (py_str x)) (natsorted_by_str (enumerate 0 vs))) \<and>
   flatten_json (JObj [(''tags'', JArr [JStr ''b'', JStr ''a'', JStr ''c''])]) [] ''_''
     = [(''tags_2'', JStr ''a''), (''tags_1'', JStr ''b''), (''tags_3'', JStr ''c'')]"
proof (intro conjI impI allI)
  assume sc: "\<forall>v\<in>set vs. \<not> is_container v"
  then show "flatten_json (JObj [(k, JArr vs)]) [] sep
        = map (\<lambda>(i, x). (k @ ''_'' @ str_nat (i + 1), x)) (natsorted_by_str (enumerate 0 vs))"
    by (rule flatten_json_single_list)
next
  fix i
  assume sc: "\<forall>v\<in>set vs. \<not> is_container v" and i: "i < length vs"
  let ?pairs = "natsorted_by_str (enumerate 0 vs)"
  let ?g = "\<lambda>(i, x). (k @ ''_'' @ str_nat (i + 1), x)"
  let ?items = "foldl (flatten_entry [] sep) [] pre"
  have scp: "\<forall>x\<in>set ?pairs. \<not> is_container (snd x)"
    using sc by (auto dest: in_enumerate_snd)
  have "flatten_json (JObj (pre @ [(k, JArr vs)])) [] sep = expand_list k sep ?items ?pairs"
    by (simp add: flatten_json_JObj flatten_entry_def)
  then have m: "map_of (flatten_json (JObj (pre @ [(k, JArr vs)])) [] sep)
      = map_of ?items ++ map_of (map ?g ?pairs)"
    using scp by (simp add: map_of_expand_list_scalars distinct_fst_natsorted)
  have "(i, vs ! i) \<in> set ?pairs" using i by (simp add: in_set_enumerate_eq)
  then have "(k @ ''_'' @ str_nat (i + 1), vs ! i) \<in> set (map ?g ?pairs)" by force
  moreover have "distinct (map fst (map ?g ?pairs))"
  proof -
    have "map fst (map ?g ?pairs) = map (\<lambda>i. k @ ''_'' @ str_nat (i + 1)) (map fst ?pairs)"
      by (simp add: split_def)
    moreover have "inj_on (\<lambda>i. k @ ''_'' @ str_nat (i + 1)) (set (map fst ?pairs))"
      using str_nat_inj by (auto simp: inj_on_def)
    ultimately show ?thesis
      using distinct_fst_natsorted [of 0 vs] by (simp only: distinct_map simp_thms)
  qed
  ultimately have "map_of (map ?g ?pairs) (k @ ''_'' @ str_nat (i + 1)) = Some (vs ! i)"
    by (rule map_of_is_SomeI [rotated])
  then show "map_of (flatten_json (JObj (pre @ [(k, JArr vs)])) [] sep)
                         (k @ ''_'' @ str_nat (i + 1)) = Some (vs ! i)"
    unfolding m by (simp add: map_add_def)
next
  show "mset (natsorted_by_str (enumerate 0 vs)) = mset (enumerate 0 vs)"
    by (simp add: natsorted_by_str_def)
next
  have "(\<lambda>(i, x). natsort_key (py_str x)) = (\<lambda>x :: nat \<times> json. natsort_key (py_str (snd x)))"
    by (simp add: split_def)
  then show "sorted (map (\<lambda>(i, x). natsort_key (py_str x)) (natsorted_by_str (enumerate 0 vs)))"
    by (simp only: sorted_natsorted_by_str)
next
  show "flatten_json (JObj [(''tags'', JArr [JStr ''b'', JStr ''a'', JStr ''c''])]) [] ''_''
     = [(''tags_2'', JStr ''a''), (''tags_1'', JStr ''b''), (''tags_3'', JStr ''c'')]"
    by code_simp
qed

theorem flatten_json_list_of_scalars_witness:
  "flatten_json (JObj [(''n'', JArr [JInt 10, JInt 9, JStr ''x8''])]) [] ''_''
     = [(''n_2'', JInt 9), (''n_1'', JInt 10), (''n_3'', JStr ''x8'')] \<and>
   map_of (flatten_json (JObj [(''n_1'', JNull), (''n'', JArr [JInt 10, JInt 9, JStr ''x8''])]) [] ''_'')
     ''n_1'' = Some (JInt 10)"
proof -
  let ?vs = "[JInt 10, JInt 9, JStr ''x8'']"
  have sc: "\<forall>v\<in>set ?vs. \<not> is_container v" by simp
  have s: "natsorted_by_str (enumerate 0 ?vs) = [(1, JInt 9), (0, JInt 10), (2, JStr ''x8'')]"
    by code_simp
  have m: "map (\<lambda>(i, x). (''n'' @ ''_'' @ str_nat (i + 1), x))
             [(1, JInt 9), (0, JInt 10), (2, JStr ''x8'')]
      = [(''n_2'', JInt 9), (''n_1'', JInt 10), (''n_3'', JStr ''x8'')]"
    by code_simp
  have k1: "''n'' @ ''_'' @ str_nat (0 + 1) = ''n_1''" by code_simp
  have "flatten_json (JObj [(''n'', JArr ?vs)]) [] ''_''
     = map (\<lambda>(i, x). (''n'' @ ''_'' @ str_nat (i + 1), x)) (natsorted_by_str (enumerate 0 ?vs))"
    using flatten_json_list_of_scalars [of ?vs "''n''" "''_''"] sc by blast
  then have 1: "flatten_json (JObj [(''n'', JArr ?vs)]) [] ''_''
     = [(''n_2'', JInt 9), (''n_1'', JInt 10), (''n_3'', JStr ''x8'')]"
    unfolding s m .
  have "\<forall>i<length ?vs. map_of (flatten_json (JObj ([(''n_1'', JNull)] @ [(''n'', JArr ?vs)])) [] ''_'')
                         (''n'' @ ''_'' @ str_nat (i + 1)) = Some (?vs ! i)"
    using flatten_json_list_of_scalars [of ?vs "''n''" "''_''" "[(''n_1'', JNull)]"] sc by blast
  then have "map_of (flatten_json (JObj ([(''n_1'', JNull)] @ [(''n'', JArr ?vs)])) [] ''_'')
                         (''n'' @ ''_'' @ str_nat (0 + 1)) = Some (?vs ! 0)"
    by simp
  then have 2: "map_of (flatten_json (JObj [(''n_1'', JNull), (''n'', JArr ?vs)]) [] ''_'')
     ''n_1'' = Some (JInt 10)"
    unfolding k1 by simp
  from 1 2 show ?thesis by simp
qed

section \<open>The two passes of the job\<close>

lemma extract_chunk_number_index: "extract_chunk_number name = Inr (chunk_index name)"
  using extract_chunk_number_total [of name] by (auto simp: chunk_index_def)

lemma chunk_index_nonneg: "0 \<le> chunk_index name"
  using extract_chunk_number_total [of name] by (auto simp: chunk_index_def)

lemma sort_by_chunk_eq: "sort_by_chunk files = Inr (sort_key (\<lambda>x. chunk_index (fst x)) files)"
proof -
  have "map (\<lambda>x. extract_chunk_number (fst x)) files = map (\<lambda>x. Inr (chunk_index (fst x))) files"
    by (simp add: extract_chunk_number_index)
  then have "sequence_sum (map (\<lambda>x. extract_chunk_number (fst x)) files)
      = Inr (map (\<lambda>x. chunk_index (fst x)) files)"
    by (simp only: sequence_sum_map_Inr)
  then show ?thesis
    by (simp add: sort_by_chunk_def map_snd_sort_key_zip)
qed

lemma set_set_add [simp]: "set (set_add s x) = insert x (set s)"
  by (auto simp: set_add_def)

lemma distinct_set_add [simp]: "distinct (set_add s x) = distinct s"
  by (auto simp: set_add_def)

lemma set_set_update [simp]: "set (set_update s xs) = set s \<union> set xs"
  unfolding set_update_def by (induction xs arbitrary: s) auto

lemma distinct_set_update [simp]: "distinct (set_update s xs) = distinct s"
  unfolding set_update_def by (induction xs arbitrary: s) auto

lemma set_set_discard [simp]: "set (set_discard s x) = set s - {x}"
  by (auto simp: set_discard_def)

lemma distinct_set_discard [simp]: "distinct s \<Longrightarrow> distinct (set_discard s x)"
  by (simp add: set_discard_def)

lemma set_fieldnames_of: "set (fieldnames_of s records) = set s \<union> (\<Union>d\<in>set records. fst ` set d)"
  unfolding fieldnames_of_def by (induction records arbitrary: s) auto

lemma distinct_fieldnames_of: "distinct (fieldnames_of s records) = distinct s"
  unfolding fieldnames_of_def by (induction records arbitrary: s) auto

lemma fieldnames_of_snoc:
  "fieldnames_of s (records @ [d]) = set_update (fieldnames_of s records) (map fst d)"
  by (simp add: fieldnames_of_def)

lemma first_pass_eq:
  "first_pass files (s, ds) =
     Inr (fieldnames_of s (map flattened_record (parsed_files files)),
          ds @ map flattened_record (parsed_files files))"
proof (induction files arbitrary: s ds rule: parsed_files.induct)
  case 1
  then show ?case by (simp add: fieldnames_of_def)
next
  case (2 name files)
  then show ?case by simp
next
  case (3 name data files)
  show ?case
    by (simp add: "3.IH" extract_chunk_number_index Let_def flattened_record_def fieldnames_of_def)
qed

lemma iteration_order_set: "iteration_order los \<Longrightarrow> set (los s) = set s"
  unfolding iteration_order_def by (metis set_mset_mset)

lemma iteration_order_distinct: "iteration_order los \<Longrightarrow> distinct (los s) = distinct s"
  unfolding iteration_order_def by (metis mset_eq_imp_distinct_iff)

lemma schema_eq:
  assumes "iteration_order los"
  shows "schema los names =
     (if \<exists>x\<in>set names - {''5_sec_time_offset''}. natural_sort_key x = Inl ValueError_int
      then Inl ValueError_int
      else Inr (''5_sec_time_offset''
                 # sort_key natsort_key (los (set_discard names ''5_sec_time_offset''))))"
  using iteration_order_set [OF assms, of "set_discard names ''5_sec_time_offset''"]
  by (simp add: schema_def py_sort_key_natural)

lemma json_directory_to_csv_eq:
  "json_directory_to_csv los inp =
     (if \<not> dir_exists inp \<or> \<not> dir_is_dir inp then Inl ValueError_directory
      else if glob_json inp = [] then Inl ValueError_no_files
      else if job_records inp = [] then Inl ValueError_no_valid
      else (case schema los (fieldnames_of [] (job_records inp)) of
              Inl e \<Rightarrow> Inl e
            | Inr fieldnames \<Rightarrow>
                if \<not> output_writable inp then Inl OSError_output
                else Inr (table_of fieldnames (job_records inp))))"
  by (simp add: json_directory_to_csv_def sort_by_chunk_eq first_pass_eq job_records_def
      table_of_def split: sum.splits)

lemma columns_fieldnames_of:
  "set (fieldnames_of [] records) - {''5_sec_time_offset''} = columns records"
  by (simp add: set_fieldnames_of columns_def)

lemma schema_of_records:
  assumes "iteration_order los"
  shows "schema los (fieldnames_of [] records) =
     (if \<exists>x\<in>columns records. natural_sort_key x = Inl ValueError_int
      then Inl ValueError_int
      else Inr (''5_sec_time_offset''
                 # sort_key natsort_key
                     (los (set_discard (fieldnames_of [] records) ''5_sec_time_offset''))))"
  unfolding schema_eq [OF assms] columns_fieldnames_of ..

lemma sortable_columns_keys:
  "sortable_columns records \<Longrightarrow> \<not> (\<exists>x\<in>columns records. natural_sort_key x = Inl ValueError_int)"
  by (simp add: sortable_columns_def)

lemma sortable_columns_ascii:
  "\<forall>x\<in>columns records. ascii_digits_only x \<Longrightarrow> sortable_columns records"
  by (simp add: sortable_columns_def natural_sort_key_ascii)

lemma schema_sorted_union:
  assumes "iteration_order los" and "sortable_columns records"
  shows "\<exists>cols. schema los (fieldnames_of [] records) = Inr (''5_sec_time_offset'' # cols) \<and>
           set cols = columns records \<and> distinct cols \<and> sorted (map natsort_key cols)"
proof -
  let ?s = "set_discard (fieldnames_of [] records) ''5_sec_time_offset''"
  let ?cols = "sort_key natsort_key (los ?s)"
  have "schema los (fieldnames_of [] records) = Inr (''5_sec_time_offset'' # ?cols)"
    using assms by (simp add: schema_of_records sortable_columns_keys)
  moreover have "set ?cols = columns records"
    using iteration_order_set [OF assms(1)] by (simp add: columns_fieldnames_of)
  moreover have "distinct ?s" by (simp add: distinct_fieldnames_of)
  then have "distinct ?cols"
    using iteration_order_distinct [OF assms(1)] by simp
  moreover have "sorted (map natsort_key ?cols)" by simp
  ultimately show ?thesis by blast
qed

section \<open>The schema\<close>

text \<open>
  C5. A record with the column name U+00B2 (superscript two): \<^verbatim>\<open>re.split\<close> finds no digit
  in it, \<^verbatim>\<open>str.isdigit\<close> accepts it, and \<^verbatim>\<open>int\<close> raises \<^verbatim>\<open>ValueError\<close>, so the
  aggregation step produces no schema.
\<close>

theorem schema_superscript_column:
  "natural_sort_key [char_of (178::nat)] = Inl ValueError_int \<and>
   schema (\<lambda>s. s)
     (fieldnames_of [] [[([char_of (178::nat)], JInt 1), (''5_sec_time_offset'', JInt 0)]])
     = Inl ValueError_int"
  by code_simp

lemma job_superscript_column:
  "json_directory_to_csv (\<lambda>s. s)
     \<lparr>dir_exists = True, dir_is_dir = True,
      glob_json = [(''m_chunk_001.json'', Some (JObj [([char_of (178::nat)], JInt 1)]))],
      output_writable = True\<rparr> = Inl ValueError_int"
  by code_simp

section \<open>The rows of the table\<close>

lemma parsed_files_eq:
  "parsed_files files = map (\<lambda>f. (fst f, the (snd f))) (filter (\<lambda>f. snd f \<noteq> None) files)"
  by (induction files rule: parsed_files.induct) simp_all

lemma length_parsed_files:
  "length (parsed_files files) = length files - length (filter (\<lambda>f. snd f = None) files)"
proof -
  have "length files = length (filter (\<lambda>f. snd f \<noteq> None) files)
      + length (filter (\<lambda>f. snd f = None) files)"
    using sum_length_filter_compl [of "\<lambda>f. snd f \<noteq> None" files] by simp
  then show ?thesis by (simp add: parsed_files_eq)
qed

lemma parsed_files_sort_key:
  "parsed_files (sort_key (\<lambda>x. chunk_index (fst x)) files)
     = sort_key (\<lambda>x. chunk_index (fst x)) (parsed_files files)"
proof -
  let ?g = "\<lambda>f :: string \<times> json option. (fst f, the (snd f))"
  have "map ?g (sort_key (\<lambda>x. chunk_index (fst x)) xs)
      = sort_key (\<lambda>x. chunk_index (fst x)) (map ?g xs)" for xs
  proof (induction xs)
    case Nil
    then show ?case by simp
  next
    case (Cons x xs)
    have "map ?g (insort_key (\<lambda>x. chunk_index (fst x)) x ys)
        = insort_key (\<lambda>x. chunk_index (fst x)) (?g x) (map ?g ys)" for ys
      by (induction ys) simp_all
    with Cons show ?case by simp
  qed
  then show ?thesis by (simp add: parsed_files_eq filter_sort)
qed

lemma parsed_files_Nil_iff: "parsed_files files = [] \<longleftrightarrow> (\<forall>f\<in>set files. snd f = None)"
  by (induction files rule: parsed_files.induct) simp_all

lemma job_records_eq:
  "job_records inp
     = map flattened_record (sort_key (\<lambda>x. chunk_index (fst x)) (parsed_files (glob_json inp)))"
  by (simp add: job_records_def parsed_files_sort_key)

lemma job_records_Nil_iff: "job_records inp = [] \<longleftrightarrow> parsed_files (glob_json inp) = []"
proof -
  have "length (job_records inp) = length (parsed_files (glob_json inp))"
    by (simp add: job_records_eq)
  then show ?thesis by (metis length_0_conv)
qed

lemma job_valid_input:
  assumes "valid_input los inp"
  shows "\<exists>cols. json_directory_to_csv los inp
             = Inr (table_of (''5_sec_time_offset'' # cols) (job_records inp)) \<and>
           set cols = columns (job_records inp) \<and> distinct cols \<and> sorted (map natsort_key cols)"
proof -
  from assms have io: "iteration_order los" and sc: "sortable_columns (job_records inp)"
    and ok: "dir_exists inp" "dir_is_dir inp" "output_writable inp"
    and ne: "parsed_files (glob_json inp) \<noteq> []"
    by (simp_all add: valid_input_def)
  from ne have files: "glob_json inp \<noteq> []" by auto
  from ne have recs: "job_records inp \<noteq> []" by (simp add: job_records_Nil_iff)
  from schema_sorted_union [OF io sc] obtain cols where
    cols: "schema los (fieldnames_of [] (job_records inp)) = Inr (''5_sec_time_offset'' # cols)"
      "set cols = columns (job_records inp)" "distinct cols" "sorted (map natsort_key cols)"
    by blast
  have "json_directory_to_csv los inp
      = Inr (table_of (''5_sec_time_offset'' # cols) (job_records inp))"
    using ok files recs cols(1) by (simp add: json_directory_to_csv_eq)
  with cols show ?thesis by blast
qed





section \<open>When the job raises\<close>

text \<open>
  C4 (as amended). Where no column name makes \<^verbatim>\<open>natural_sort_key\<close> raise, the job raises an
  error if and only if the input path is missing or not a directory, or no file matches, or
  no file can be read, or the output cannot be written. A file that cannot be read does
  not stop the job: if the directory is there, some file can be read and the output can be
  written, the job returns a table with one row for each file that could be read.
\<close>

theorem json_directory_to_csv_raises_iff:
  assumes "iteration_order list_of_set" and "sortable_columns (job_records inp)"
  shows "((\<exists>e. json_directory_to_csv list_of_set inp = Inl e) \<longleftrightarrow>
            \<not> dir_exists inp \<or> \<not> dir_is_dir inp \<or> glob_json inp = [] \<or>
            (\<forall>f\<in>set (glob_json inp). snd f = None) \<or> \<not> output_writable inp) \<and>
         (dir_exists inp \<and> dir_is_dir inp \<and> (\<exists>f\<in>set (glob_json inp). snd f \<noteq> None) \<and>
            output_writable inp \<longrightarrow>
            (\<exists>t. json_directory_to_csv list_of_set inp = Inr t \<and>
                 length (rows t) = length (glob_json inp)
                    - length (filter (\<lambda>f. snd f = None) (glob_json inp))))"
proof -
  from schema_sorted_union [OF assms] obtain cols where
    cols: "schema list_of_set (fieldnames_of [] (job_records inp)) = Inr (''5_sec_time_offset'' # cols)"
    by blast
  have recs: "job_records inp = [] \<longleftrightarrow> (\<forall>f\<in>set (glob_json inp). snd f = None)"
    by (simp add: job_records_Nil_iff parsed_files_Nil_iff)
  have iff: "(\<exists>e. json_directory_to_csv list_of_set inp = Inl e) \<longleftrightarrow>
            \<not> dir_exists inp \<or> \<not> dir_is_dir inp \<or> glob_json inp = [] \<or>
            (\<forall>f\<in>set (glob_json inp). snd f = None) \<or> \<not> output_writable inp"
    unfolding json_directory_to_csv_eq cols recs [symmetric] by auto
  have ok: "\<exists>t. json_directory_to_csv list_of_set inp = Inr t \<and>
                 length (rows t) = length (glob_json inp)
                    - length (filter (\<lambda>f. snd f = None) (glob_json inp))"
    if "dir_exists inp \<and> dir_is_dir inp \<and> (\<exists>f\<in>set (glob_json inp). snd f \<noteq> None) \<and>
            output_writable inp"
  proof -
    from that have "parsed_files (glob_json inp) \<noteq> []"
      by (simp add: parsed_files_Nil_iff)
    with that assms have "valid_input list_of_set inp" by (simp add: valid_input_def)
    from job_valid_input [OF this] obtain cols' where
      "json_directory_to_csv list_of_set inp
         = Inr (table_of (''5_sec_time_offset'' # cols') (job_records inp))"
      by blast
    moreover have "length (rows (table_of (''5_sec_time_offset'' # cols') (job_records inp)))
        = length (glob_json inp) - length (filter (\<lambda>f. snd f = None) (glob_json inp))"
      by (simp add: table_of_def job_records_eq length_parsed_files)
    ultimately show ?thesis by blast
  qed
  from iff ok show ?thesis by blast
qed

theorem json_directory_to_csv_raises_iff_witness:
  "iteration_order rev \<and>
   sortable_columns (job_records
     \<lparr>dir_exists = True, dir_is_dir = True,
      glob_json = [(''a_chunk_002.json'', Some (JObj [([CHR ''m'', char_of (178::nat)], JStr ''Mn'')])),
                   (''a_chunk_001.json'', None)],
      output_writable = True\<rparr>) \<and>
   json_directory_to_csv rev
     \<lparr>dir_exists = True, dir_is_dir = True,
      glob_json = [(''a_chunk_002.json'', Some (JObj [([CHR ''m'', char_of (178::nat)], JStr ''Mn'')])),
                   (''a_chunk_001.json'', None)],
      output_writable = True\<rparr>
     = Inr \<lparr>header = [''5_sec_time_offset'', [CHR ''m'', char_of (178::nat)]], rows = [[JInt 1, JStr ''Mn'']]\<rparr>"
proof -
  let ?inp = "\<lparr>dir_exists = True, dir_is_dir = True,
      glob_json = [(''a_chunk_002.json'', Some (JObj [([CHR ''m'', char_of (178::nat)], JStr ''Mn'')])),
                   (''a_chunk_001.json'', None)],
      output_writable = True\<rparr>"
  have io: "iteration_order rev" by (simp add: iteration_order_def)
  have sc: "sortable_columns (job_records ?inp)" by code_simp
  have "\<not> (\<exists>e. json_directory_to_csv rev ?inp = Inl e)"
    using json_directory_to_csv_raises_iff [OF io sc] by simp
  moreover have "json_directory_to_csv rev ?inp
       = Inr \<lparr>header = [''5_sec_time_offset'', [CHR ''m'', char_of (178::nat)]], rows = [[JInt 1, JStr ''Mn'']]\<rparr>"
    by code_simp
  ultimately show ?thesis using io sc by simp
qed

theorem json_directory_to_csv_output_counterexample:
  "json_directory_to_csv (\<lambda>s. s)
     \<lparr>dir_exists = True, dir_is_dir = True,
      glob_json = [(''m_chunk_001.json'', Some (JObj [(''score'', JFloat ''0.1'')]))],
      output_writable = False\<rparr> = Inl OSError_output \<and>
   parsed_files [(''m_chunk_001.json'', Some (JObj [(''score'', JFloat ''0.1'')]))]
     = [(''m_chunk_001.json'', JObj [(''score'', JFloat ''0.1'')])]"
  by code_simp

section \<open>The schema and the order of the files\<close>









end
